theory Spec2Isabelle
  imports Main "HOL-Library.Sublist" "HOL-Library.Multiset"
begin

section \<open>The chat graph of pkg/graph/chat.go\<close>

subsection \<open>Data model: messages on a heap\<close>

text \<open>
  The Go code works with pointers \<^verbatim>\<open>*Message\<close>: a message is shared between the chat's
  flat collection and the \<^verbatim>\<open>In\<close>/\<^verbatim>\<open>Out\<close> lists of other messages, it is mutated in place,
  and the visited set of the traversal is keyed by the pointer. The model keeps the
  pointers: a heap is the list of all allocated \<^verbatim>\<open>Message\<close> structs, an address is an
  index into it, and a pointer is \<open>None\<close> (Go's \<^verbatim>\<open>nil\<close>) or \<open>Some a\<close>. Go has no dangling
  pointers; an address beyond the heap is treated like \<^verbatim>\<open>nil\<close> when it is dereferenced.
\<close>

type_synonym msgptr = "nat option"

type_synonym Messages = "msgptr list"

text \<open>\<^verbatim>\<open>openai.ChatMessage\<close>: the two fields the package reads.\<close>

record ChatMessage =
  Role :: string
  Content :: string

text \<open>\<^verbatim>\<open>type Message struct { ID string; openai.ChatMessage; In Messages; Out Messages }\<close>:
  the embedded struct is a field of its own, so Go's \<^verbatim>\<open>m.Role\<close> is \<open>Role (ChatMessage m)\<close>.\<close>

record Message =
  ID :: string
  ChatMessage :: ChatMessage
  In :: Messages
  Out :: Messages

type_synonym heap = "Message list"

text \<open>\<^verbatim>\<open>type Chat struct { ID string; Name string; Messages }\<close>. The names of record fields
  are global, so the \<^verbatim>\<open>ID\<close> of the chat is \<open>ChatID\<close>.\<close>

record Chat =
  ChatID :: string
  Name :: string
  Messages :: Messages

text \<open>A run-time panic of the Go program.\<close>

datatype panic = NilPointerDereference | IndexOutOfRange

definition deref :: "heap \<Rightarrow> msgptr \<Rightarrow> Message option" where
  "deref h p = (case p of None \<Rightarrow> None | Some a \<Rightarrow> if a < length h then Some (h ! a) else None)"

text \<open>A pointer is live when it points to a message of the heap.\<close>

definition live :: "heap \<Rightarrow> msgptr \<Rightarrow> bool" where
  "live h p = (deref h p \<noteq> None)"

text \<open>The fields read through a pointer (\<^verbatim>\<open>msg.ID\<close>, \<^verbatim>\<open>msg.In\<close>, ...), for use where the
  pointer is known to be live.\<close>

definition IDof :: "heap \<Rightarrow> msgptr \<Rightarrow> string" where
  "IDof h p = (case deref h p of None \<Rightarrow> [] | Some m \<Rightarrow> ID m)"

definition Inof :: "heap \<Rightarrow> msgptr \<Rightarrow> Messages" where
  "Inof h p = (case deref h p of None \<Rightarrow> [] | Some m \<Rightarrow> In m)"


text \<open>The constants of the \<^verbatim>\<open>openai\<close> package that the code names. Modelled from the spec:
  the package is not part of the repository; the spec gives the role of the instruction
  entry as "system" and of the transcript entry as "user".\<close>

definition ChatRoleSystem :: string where
  "ChatRoleSystem = ''system''"

definition ChatRoleUser :: string where
  "ChatRoleUser = ''user''"

subsection \<open>Messages.IDs and Chat.GetMessages\<close>

text \<open>
  \<^verbatim>\<open>
  func (msgs Messages) IDs() []string {
      ids := make([]string, len(msgs))
      for i, msg := range msgs {
          ids[i] = msg.ID
      }
      return ids
  }
  \<close>
\<close>

fun IDs :: "heap \<Rightarrow> Messages \<Rightarrow> panic + string list" where
  "IDs h [] = Inr []"
| "IDs h (msg # rest) =
     (case deref h msg of
        None \<Rightarrow> Inl NilPointerDereference
      | Some m \<Rightarrow> (case IDs h rest of Inl e \<Rightarrow> Inl e | Inr ids \<Rightarrow> Inr (ID m # ids)))"

text \<open>
  \<^verbatim>\<open>
  func (graph *Chat) GetMessages(ids ...string) Messages {
      msgs := make(Messages, len(ids))
      for _, msg := range graph.Messages {
          for _, id := range ids {
              if msg.ID == id {
                  msgs = append(msgs, msg)
              }
          }
      }
      return msgs
  }
  \<close>
  \<^verbatim>\<open>make(Messages, len(ids))\<close> is a slice of \<^verbatim>\<open>len(ids)\<close> nil pointers. \<^verbatim>\<open>msg.ID\<close> is
  evaluated once per iteration of the inner loop and panics when \<^verbatim>\<open>msg\<close> is nil.
\<close>

fun GetMessages_ids :: "heap \<Rightarrow> msgptr \<Rightarrow> string list \<Rightarrow> Messages \<Rightarrow> panic + Messages" where
  "GetMessages_ids h msg [] msgs = Inr msgs"
| "GetMessages_ids h msg (i # ids) msgs =
     (case deref h msg of
        None \<Rightarrow> Inl NilPointerDereference
      | Some m \<Rightarrow> GetMessages_ids h msg ids (if ID m = i then msgs @ [msg] else msgs))"

fun GetMessages_range :: "heap \<Rightarrow> Messages \<Rightarrow> string list \<Rightarrow> Messages \<Rightarrow> panic + Messages" where
  "GetMessages_range h [] ids msgs = Inr msgs"
| "GetMessages_range h (msg # rest) ids msgs =
     (case GetMessages_ids h msg ids msgs of
        Inl e \<Rightarrow> Inl e
      | Inr msgs' \<Rightarrow> GetMessages_range h rest ids msgs')"

definition GetMessages :: "heap \<Rightarrow> Chat \<Rightarrow> string list \<Rightarrow> panic + Messages" where
  "GetMessages h graph ids =
     GetMessages_range h (Messages graph) ids (replicate (length ids) None)"

text \<open>The (message, id) pairs with matching ID, messages in the order of the flat
  collection and, for one message, ids in the order of the argument list.\<close>

definition matching_pairs :: "heap \<Rightarrow> Messages \<Rightarrow> string list \<Rightarrow> (msgptr \<times> string) list" where
  "matching_pairs h msgs ids = filter (\<lambda>(p, i). IDof h p = i) (List.product msgs ids)"

subsection \<open>Messages.Hydrate, Messages.Hydrated, Chat.HydrateMessages\<close>

text \<open>
  \<^verbatim>\<open>
  func (msgs Messages) Hydrate(ctx context.Context, graph *Chat) {
      for _, msg := range msgs {
          msg.In = graph.GetMessages(msg.In.IDs()...)
          msg.Out = graph.GetMessages(msg.Out.IDs()...)
      }
  }
  \<close>
  The assignments write through the pointer, so the heap is passed on updated.
\<close>

definition set_In :: "heap \<Rightarrow> nat \<Rightarrow> Messages \<Rightarrow> heap" where
  "set_In h a ms = h[a := (h ! a)\<lparr>In := ms\<rparr>]"

definition set_Out :: "heap \<Rightarrow> nat \<Rightarrow> Messages \<Rightarrow> heap" where
  "set_Out h a ms = h[a := (h ! a)\<lparr>Out := ms\<rparr>]"

definition Hydrate_msg :: "heap \<Rightarrow> msgptr \<Rightarrow> Chat \<Rightarrow> panic + heap" where
  "Hydrate_msg h msg graph =
     (case msg of
        None \<Rightarrow> Inl NilPointerDereference
      | Some a \<Rightarrow>
          if \<not> a < length h then Inl NilPointerDereference
          else (case IDs h (In (h ! a)) of
                  Inl e \<Rightarrow> Inl e
                | Inr in_ids \<Rightarrow>
                   (case GetMessages h graph in_ids of
                      Inl e \<Rightarrow> Inl e
                    | Inr ins \<Rightarrow>
                       (let h1 = set_In h a ins in
                        case IDs h1 (Out (h1 ! a)) of
                          Inl e \<Rightarrow> Inl e
                        | Inr out_ids \<Rightarrow>
                           (case GetMessages h1 graph out_ids of
                              Inl e \<Rightarrow> Inl e
                            | Inr outs \<Rightarrow> Inr (set_Out h1 a outs))))))"

fun Hydrate :: "heap \<Rightarrow> Messages \<Rightarrow> Chat \<Rightarrow> panic + heap" where
  "Hydrate h [] graph = Inr h"
| "Hydrate h (msg # rest) graph =
     (case Hydrate_msg h msg graph of
        Inl e \<Rightarrow> Inl e
      | Inr h' \<Rightarrow> Hydrate h' rest graph)"

text \<open>\<^verbatim>\<open>func (graph *Chat) HydrateMessages(ctx) { graph.Messages.Hydrate(ctx, graph) }\<close>\<close>

definition HydrateMessages :: "heap \<Rightarrow> Chat \<Rightarrow> panic + heap" where
  "HydrateMessages h graph = Hydrate h (Messages graph) graph"

text \<open>
  \<^verbatim>\<open>
  func (msgs Messages) Hydrated() bool {
      for _, msg := range msgs {
          for _, in := range msg.In {
              if in.ID == "" {
                  return false
              }
              if in.Content == "" && in.Role == "" {
                  return false
              }
          }
      }
      return true
  }
  \<close>
  The inner loop returns \<open>Inr False\<close> where the Go function returns false, and
  \<open>Inr True\<close> where the loop runs to its end.
\<close>

fun Hydrated_in :: "heap \<Rightarrow> Messages \<Rightarrow> panic + bool" where
  "Hydrated_in h [] = Inr True"
| "Hydrated_in h (p # rest) =
     (case deref h p of
        None \<Rightarrow> Inl NilPointerDereference
      | Some m \<Rightarrow>
          if ID m = [] then Inr False
          else if Content (ChatMessage m) = [] \<and> Role (ChatMessage m) = [] then Inr False
          else Hydrated_in h rest)"

fun Hydrated :: "heap \<Rightarrow> Messages \<Rightarrow> panic + bool" where
  "Hydrated h [] = Inr True"
| "Hydrated h (msg # rest) =
     (case deref h msg of
        None \<Rightarrow> Inl NilPointerDereference
      | Some m \<Rightarrow>
         (case Hydrated_in h (In m) of
            Inl e \<Rightarrow> Inl e
          | Inr b \<Rightarrow> if b then Hydrated h rest else Inr False))"

text \<open>The spec's stub node: a node carrying an id but empty role and empty content.\<close>

definition is_stub :: "Message \<Rightarrow> bool" where
  "is_stub m = (ID m \<noteq> [] \<and> Role (ChatMessage m) = [] \<and> Content (ChatMessage m) = [])"

definition stub_in_In :: "heap \<Rightarrow> Messages \<Rightarrow> bool" where
  "stub_in_In h msgs =
     list_ex (\<lambda>msg. list_ex (\<lambda>p. case deref h p of None \<Rightarrow> False | Some m \<Rightarrow> is_stub m)
                             (Inof h msg)) msgs"

text \<open>What the code tests on a node of an \<^verbatim>\<open>In\<close> list.\<close>

definition populated :: "Message \<Rightarrow> bool" where
  "populated m = (ID m \<noteq> [] \<and> (Content (ChatMessage m) \<noteq> [] \<or> Role (ChatMessage m) \<noteq> []))"

definition all_In_populated :: "heap \<Rightarrow> Messages \<Rightarrow> bool" where
  "all_In_populated h msgs =
     list_all (\<lambda>msg. list_all (\<lambda>p. case deref h p of None \<Rightarrow> False | Some m \<Rightarrow> populated m)
                               (Inof h msg)) msgs"

text \<open>Every message of the collection, and every entry of its \<^verbatim>\<open>In\<close> list, is live.\<close>

definition In_live :: "heap \<Rightarrow> Messages \<Rightarrow> bool" where
  "In_live h msgs = list_all (\<lambda>msg. live h msg \<and> list_all (live h) (Inof h msg)) msgs"

subsection \<open>Message.MarshalJSON and Message.UnmarshalJSON\<close>

text \<open>\<^verbatim>\<open>strings.Join\<close>\<close>

fun Join :: "string list \<Rightarrow> string \<Rightarrow> string" where
  "Join [] sep = []"
| "Join [x] sep = x"
| "Join (x # y # ys) sep = x @ sep @ Join (y # ys) sep"

text \<open>
  \<^verbatim>\<open>
  func (m *Message) MarshalJSON() ([]byte, error) {
      return []byte(
          fmt.Sprintf(
              `{"id":"%s","role":"%s","content":"%s","in":[%s],"out":[%s]}`,
              m.ID, m.Role, m.Content,
              strings.Join(m.In.IDs(), ","),
              strings.Join(m.Out.IDs(), ","),
          ),
      ), nil
  }
  \<close>
  The error returned is always nil; the result is the text, or a panic.
\<close>

definition MarshalJSON :: "heap \<Rightarrow> msgptr \<Rightarrow> panic + string" where
  \<open>MarshalJSON h m =
     (case deref h m of
        None \<Rightarrow> Inl NilPointerDereference
      | Some msg \<Rightarrow>
         (case IDs h (In msg) of
            Inl e \<Rightarrow> Inl e
          | Inr in_ids \<Rightarrow>
             (case IDs h (Out msg) of
                Inl e \<Rightarrow> Inl e
              | Inr out_ids \<Rightarrow>
                  Inr (''{"id":"'' @ ID msg @ ''","role":"'' @ Role (ChatMessage msg)
                       @ ''","content":"'' @ Content (ChatMessage msg)
                       @ ''","in":['' @ Join in_ids '','' @ ''],"out":['' @ Join out_ids '',''
                       @ '']}''))))\<close>

text \<open>
  \<^verbatim>\<open>
  func (m *Message) UnmarshalJSON(b []byte) error {
      var raw struct {
          ID      string   `json:"id"`
          Role    string   `json:"role"`
          Content string   `json:"content"`
          In      []string `json:"in"`
          Out     []string `json:"out"`
      }
      if err := json.Unmarshal(b, &raw); err != nil {
          return err
      }
      m.ID = raw.ID
      m.Role = raw.Role
      m.Content = raw.Content
      for _, id := range raw.In {
          m.In = append(m.In, &Message{ID: id})
      }
      for _, id := range raw.Out {
          m.Out = append(m.Out, &Message{ID: id})
      }
      return nil
  }
  \<close>
  \<^verbatim>\<open>json.Unmarshal\<close> into the struct \<^verbatim>\<open>raw\<close> is the standard library's and is the parameter
  \<open>json_Unmarshal\<close>. \<^verbatim>\<open>&Message{ID: id}\<close> allocates: the new message is put at the end of
  the heap.
\<close>

record raw =
  raw_ID :: string
  raw_Role :: string
  raw_Content :: string
  raw_In :: "string list"
  raw_Out :: "string list"

definition new_Message :: "string \<Rightarrow> Message" where
  "new_Message i = \<lparr>ID = i, ChatMessage = \<lparr>Role = [], Content = []\<rparr>, In = [], Out = []\<rparr>"

fun append_In :: "heap \<Rightarrow> nat \<Rightarrow> string list \<Rightarrow> heap" where
  "append_In h a [] = h"
| "append_In h a (i # ids) =
     append_In (set_In (h @ [new_Message i]) a (In (h ! a) @ [Some (length h)])) a ids"

fun append_Out :: "heap \<Rightarrow> nat \<Rightarrow> string list \<Rightarrow> heap" where
  "append_Out h a [] = h"
| "append_Out h a (i # ids) =
     append_Out (set_Out (h @ [new_Message i]) a (Out (h ! a) @ [Some (length h)])) a ids"

definition UnmarshalJSON ::
  "(string \<Rightarrow> 'e + raw) \<Rightarrow> heap \<Rightarrow> msgptr \<Rightarrow> string \<Rightarrow> panic + ('e option \<times> heap)" where
  "UnmarshalJSON json_Unmarshal h m b =
     (case json_Unmarshal b of
        Inl err \<Rightarrow> Inr (Some err, h)
      | Inr r \<Rightarrow>
         (case m of
            None \<Rightarrow> Inl NilPointerDereference
          | Some a \<Rightarrow>
              if \<not> a < length h then Inl NilPointerDereference
              else (let h1 = h[a := (h ! a)\<lparr>ID := raw_ID r,
                                               ChatMessage := \<lparr>Role = raw_Role r,
                                                               Content = raw_Content r\<rparr>\<rparr>];
                        h2 = append_In h1 a (raw_In r);
                        h3 = append_Out h2 a (raw_Out r)
                    in Inr (None, h3))))"

subsection \<open>Messages.Search\<close>

text \<open>\<^verbatim>\<open>type SearchResult struct { Message *Message; MessageIndex, StartIndex, EndIndex int }\<close>\<close>

record SearchResult =
  Message :: msgptr
  MessageIndex :: int
  StartIndex :: int
  EndIndex :: int








subsection \<open>Messages.Summarize\<close>

text \<open>The request and the response of the completion service (\<^verbatim>\<open>openai.CreateChatRequest\<close>,
  \<^verbatim>\<open>openai.CreateChatResponse\<close>): the model, the entries, and the message of each choice.\<close>

record CreateChatRequest =
  Model :: string
  ReqMessages :: "ChatMessage list"

record CreateChatResponse =
  Choices :: "ChatMessage list"

text \<open>The error \<^verbatim>\<open>fmt.Errorf(text + "%w", err)\<close>: the text that precedes the text of the
  wrapped error, and the wrapped error itself (what \<^verbatim>\<open>errors.Unwrap\<close> gives back).\<close>

datatype 'e error = Errorf string 'e

text \<open>\<^verbatim>\<open>%d\<close> of a length.\<close>

fun decimal :: "nat \<Rightarrow> string" where
  "decimal n = (if n < 10 then [''0123456789'' ! n]
                else decimal (n div 10) @ [''0123456789'' ! (n mod 10)])"

declare decimal.simps [simp del]

text \<open>
  \<^verbatim>\<open>
  var b strings.Builder
  for _, m := range msgs {
      if m.Role == openai.ChatRoleSystem {
          continue // TODO: is this always the right thing to do?
      }
      b.WriteString(fmt.Sprintf("%s: %s\n", m.Role, m.Content))
  }
  return b.String()
  \<close>
\<close>

fun transcript :: "heap \<Rightarrow> Messages \<Rightarrow> string \<Rightarrow> panic + string" where
  "transcript h [] b = Inr b"
| "transcript h (p # rest) b =
     (case deref h p of
        None \<Rightarrow> Inl NilPointerDereference
      | Some m \<Rightarrow>
          if Role (ChatMessage m) = ChatRoleSystem then transcript h rest b
          else transcript h rest
                 (b @ Role (ChatMessage m) @ '': '' @ Content (ChatMessage m) @ [CHR 0x0A]))"

text \<open>
  \<^verbatim>\<open>
  func (msgs Messages) SummarizeWithSystemPrompt(ctx, client, model, summarySystemPrompt string) (string, error) {
      chatHistory := []openai.ChatMessage{
          {Role: openai.ChatRoleSystem, Content: summarySystemPrompt},
          {Role: openai.ChatRoleUser, Content: func() string { ... }()},
      }
      summary, err := client.CreateChat(ctx, &openai.CreateChatRequest{Model: model, Messages: chatHistory})
      if err != nil {
          return "", fmt.Errorf("failed to create summary of %d chat messages: %w", len(msgs), err)
      }
      return summary.Choices[0].Message.Content, nil
  }
  \<close>
  The completion service is the parameter \<open>CreateChat\<close>. The result is the pair the Go
  function returns, or a panic: of the transcript on a nil message, of
  \<^verbatim>\<open>Choices[0]\<close> on a response without choices.
\<close>

definition SummarizeWithSystemPrompt ::
  "(CreateChatRequest \<Rightarrow> 'e + CreateChatResponse) \<Rightarrow> heap \<Rightarrow> Messages \<Rightarrow> string \<Rightarrow> string
     \<Rightarrow> panic + (string \<times> 'e error option)" where
  "SummarizeWithSystemPrompt CreateChat h msgs model summarySystemPrompt =
     (case transcript h msgs [] of
        Inl e \<Rightarrow> Inl e
      | Inr t \<Rightarrow>
         (let chatHistory = [\<lparr>Role = ChatRoleSystem, Content = summarySystemPrompt\<rparr>,
                             \<lparr>Role = ChatRoleUser, Content = t\<rparr>]
          in case CreateChat \<lparr>Model = model, ReqMessages = chatHistory\<rparr> of
               Inl err \<Rightarrow>
                 Inr ([], Some (Errorf (''failed to create summary of '' @ decimal (length msgs)
                                         @ '' chat messages: '') err))
             | Inr summary \<Rightarrow>
                 (case Choices summary of
                    [] \<Rightarrow> Inl IndexOutOfRange
                  | c # cs \<Rightarrow> Inr (Content c, None))))"

definition DefaultSummaryPrompt :: string where
  "DefaultSummaryPrompt =
     ''You are an expert at summarization that answers as concisely as possible.'' @ '' '' @
     ''Provide a summary of the given conversation, including all the key information (e.g. people, places, events, things, etc) to continue on the conversation.'' @ '' '' @
     ''Do not include any unnecessary information, or a prefix in the output.''"

definition Summarize ::
  "(CreateChatRequest \<Rightarrow> 'e + CreateChatResponse) \<Rightarrow> heap \<Rightarrow> Messages \<Rightarrow> string
     \<Rightarrow> panic + (string \<times> 'e error option)" where
  "Summarize CreateChat h msgs model =
     SummarizeWithSystemPrompt CreateChat h msgs model DefaultSummaryPrompt"

text \<open>The transcript of the claim: one line \<open>role: content\<close> for each message whose role
  is not "system", in input order.\<close>

definition line :: "Message \<Rightarrow> string" where
  "line m = Role (ChatMessage m) @ '': '' @ Content (ChatMessage m) @ [CHR 0x0A]"

definition transcript_lines :: "heap \<Rightarrow> Messages \<Rightarrow> string list" where
  "transcript_lines h msgs =
     map line (filter (\<lambda>m. Role (ChatMessage m) \<noteq> ''system'') (map (\<lambda>p. h ! the p) msgs))"

subsection \<open>MessageSet\<close>

text \<open>\<^verbatim>\<open>type MessageSet map[*Message]struct{}\<close>: a set of pointers. A Go map is a
  reference, so \<^verbatim>\<open>Add\<close> in a callee is seen by the caller: the set is part of the state
  that the traversal passes on.\<close>

type_synonym MessageSet = "msgptr set"

definition NewMessageSet :: MessageSet where
  "NewMessageSet = {}"

definition Add :: "MessageSet \<Rightarrow> msgptr \<Rightarrow> MessageSet" where
  "Add s message = insert message s"

definition Has :: "MessageSet \<Rightarrow> msgptr \<Rightarrow> bool" where
  "Has s message = (message \<in> s)"

subsection \<open>VisitMessages, Chat.Visit, Messages.Visit\<close>

text \<open>
  The visitor \<^verbatim>\<open>fn func(*Message) error\<close> is a Go closure: it may keep state of its own
  (a counter, a log), so it is a function from its state and the pointer to the error
  it returns (\<open>None\<close> is Go's nil error) and its next state. It is assumed to return and
  not to change the graph. The state of a traversal is the visited set, the visitor's
  state, and a log of the calls of the visitor made so far, each with the pointer
  passed and the error returned; the log is how the theorems speak about which nodes
  were visited and in which order.
\<close>

record ('s, 'e) vstate =
  mset :: MessageSet
  fnst :: 's
  calls :: "(msgptr \<times> 'e option) list"

text \<open>What a call returns to its caller: nil, an error, or a panic that unwinds.\<close>

datatype 'e outcome = ReturnNil | ReturnErr 'e | Panicked panic

text \<open>
  The loop shared by \<^verbatim>\<open>Chat.Visit\<close>, \<^verbatim>\<open>Messages.Visit\<close> and \<^verbatim>\<open>VisitMessages\<close>:
  \<^verbatim>\<open>
  for _, next := range message.Out {
      if mset.Has(next) {
          continue
      }
      if err := VisitMessages(ctx, next, mset, fn); err != nil {
          return err
      }
  }
  return nil
  \<close>
  \<open>visit\<close> is the recursive call; it gives \<open>None\<close> when the recursion depth is used up.
\<close>

fun range_Visit ::
  "(msgptr \<Rightarrow> ('s, 'e) vstate \<Rightarrow> ('e outcome \<times> ('s, 'e) vstate) option)
     \<Rightarrow> Messages \<Rightarrow> ('s, 'e) vstate \<Rightarrow> ('e outcome \<times> ('s, 'e) vstate) option" where
  "range_Visit visit [] st = Some (ReturnNil, st)"
| "range_Visit visit (next # rest) st =
     (if Has (mset st) next then range_Visit visit rest st
      else (case visit next st of
              None \<Rightarrow> None
            | Some (r, st') \<Rightarrow>
                (case r of ReturnNil \<Rightarrow> range_Visit visit rest st' | _ \<Rightarrow> Some (r, st'))))"

text \<open>
  \<^verbatim>\<open>
  func VisitMessages(ctx context.Context, message *Message, mset MessageSet, fn func(*Message) error) error {
      if mset.Has(message) {
          return nil
      }
      mset.Add(message)
      if err := fn(message); err != nil {
          return err
      }
      for _, next := range message.Out { ... }
      return nil
  }
  \<close>
  The first argument bounds the depth of the Go call stack: \<open>VisitMessages k\<close> is the
  function that may nest \<open>k\<close> calls, and gives \<open>None\<close> where the code would nest
  deeper. \<^verbatim>\<open>Visit\<close> starts with one more than the number of messages on the heap; the
  theorems on termination show that this depth is never used up, and that a greater one
  gives the same result.
\<close>

primrec VisitMessages ::
  "nat \<Rightarrow> heap \<Rightarrow> ('s \<Rightarrow> msgptr \<Rightarrow> 'e option \<times> 's) \<Rightarrow> msgptr \<Rightarrow> ('s, 'e) vstate
     \<Rightarrow> ('e outcome \<times> ('s, 'e) vstate) option" where
  "VisitMessages 0 h fn = (\<lambda>message st. None)"
| "VisitMessages (Suc k) h fn = (\<lambda>message st.
     if Has (mset st) message then Some (ReturnNil, st)
     else (let st1 = st\<lparr>mset := Add (mset st) message\<rparr> in
           case fn (fnst st1) message of
             (err, s') \<Rightarrow>
               (let st2 = st1\<lparr>fnst := s', calls := calls st1 @ [(message, err)]\<rparr> in
                case err of
                  Some e \<Rightarrow> Some (ReturnErr e, st2)
                | None \<Rightarrow>
                   (case deref h message of
                      None \<Rightarrow> Some (Panicked NilPointerDereference, st2)
                    | Some m \<Rightarrow> range_Visit (VisitMessages k h fn) (Out m) st2))))"

text \<open>
  \<^verbatim>\<open>
  func (msgs Messages) Visit(ctx context.Context, fn func(*Message) error) error {
      seenMsgs := NewMessageSet()
      for _, msg := range msgs { ... }
      return nil
  }
  func (c *Chat) Visit(ctx context.Context, fn func(*Message) error) error  // the same on c.Messages
  \<close>
\<close>

definition start :: "'s \<Rightarrow> ('s, 'e) vstate" where
  "start s = \<lparr>mset = NewMessageSet, fnst = s, calls = []\<rparr>"

definition Messages_Visit ::
  "heap \<Rightarrow> Messages \<Rightarrow> ('s \<Rightarrow> msgptr \<Rightarrow> 'e option \<times> 's) \<Rightarrow> 's
     \<Rightarrow> ('e outcome \<times> ('s, 'e) vstate) option" where
  "Messages_Visit h msgs fn s = range_Visit (VisitMessages (Suc (length h)) h fn) msgs (start s)"

definition Visit ::
  "heap \<Rightarrow> Chat \<Rightarrow> ('s \<Rightarrow> msgptr \<Rightarrow> 'e option \<times> 's) \<Rightarrow> 's
     \<Rightarrow> ('e outcome \<times> ('s, 'e) vstate) option" where
  "Visit h c fn s = range_Visit (VisitMessages (Suc (length h)) h fn) (Messages c) (start s)"

text \<open>The pointers the visitor was called with, in the order of the calls.\<close>

definition visited :: "('s, 'e) vstate \<Rightarrow> msgptr list" where
  "visited st = map fst (calls st)"

text \<open>
  The visitor called on the pointers of a list, one after the other, from a given state
  of its own: the log of these calls and the visitor's state after them. The theorems
  use it to say that the log of a traversal holds what the visitor really returned.
\<close>

fun run_fn ::
  "('s \<Rightarrow> msgptr \<Rightarrow> 'e option \<times> 's) \<Rightarrow> 's \<Rightarrow> msgptr list \<Rightarrow> (msgptr \<times> 'e option) list \<times> 's" where
  "run_fn fn s [] = ([], s)"
| "run_fn fn s (p # ps) =
     (case fn s p of
        (err, s') \<Rightarrow> (case run_fn fn s' ps of (cs, s'') \<Rightarrow> ((p, err) # cs, s'')))"

subsection \<open>The graph of out-edges, and depth-first pre-order\<close>



text \<open>
  Pre-order depth-first search in the textbook form, with an explicit stack, over the
  table of the \<^verbatim>\<open>Out\<close> lists alone: pop a node; if it was seen, drop it; otherwise emit it,
  mark it and push its out-neighbours, in list order, on top of the stack. This is the
  order the spec names; the theorems compare the code's order of calls with it.
\<close>

definition outs :: "Messages list \<Rightarrow> msgptr \<Rightarrow> Messages" where
  "outs og p = (case p of None \<Rightarrow> [] | Some a \<Rightarrow> if a < length og then og ! a else [])"

definition universe :: "Messages list \<Rightarrow> Messages \<Rightarrow> msgptr set" where
  "universe og stack = set stack \<union> \<Union> (set ` set og)"

function dfs_stack :: "Messages list \<Rightarrow> Messages \<Rightarrow> msgptr set \<Rightarrow> Messages" where
  "dfs_stack og [] seen = []"
| "dfs_stack og (p # stack) seen =
     (if p \<in> seen then dfs_stack og stack seen
      else p # dfs_stack og (outs og p @ stack) (insert p seen))"
  by pat_completeness auto
termination
proof (relation "inv_image (less_than <*lex*> less_than)
                   (\<lambda>(og, stack, seen). (card (universe og stack - seen), length stack))")
  show "wf (inv_image (less_than <*lex*> less_than)
             (\<lambda>(og, stack, seen). (card (universe og stack - seen), length stack)))"
    by (intro wf_inv_image wf_lex_prod wf_less_than)
next
  fix og :: "Messages list" and p :: msgptr and stack :: Messages and seen :: "msgptr set"
  assume "p \<in> seen"
  have "finite (universe og (p # stack) - seen)"
    by (simp add: universe_def)
  moreover have "universe og stack - seen \<subseteq> universe og (p # stack) - seen"
    by (auto simp: universe_def)
  ultimately have "card (universe og stack - seen) \<le> card (universe og (p # stack) - seen)"
    by (rule card_mono)
  then show "((og, stack, seen), (og, p # stack, seen))
               \<in> inv_image (less_than <*lex*> less_than)
                   (\<lambda>(og, stack, seen). (card (universe og stack - seen), length stack))"
    by auto
next
  fix og :: "Messages list" and p :: msgptr and stack :: Messages and seen :: "msgptr set"
  assume "p \<notin> seen"
  have fin: "finite (universe og (p # stack) - seen)"
    by (simp add: universe_def)
  have "set (outs og p) \<subseteq> \<Union> (set ` set og)"
    by (auto simp: outs_def split: option.splits intro: nth_mem)
  then have "universe og (outs og p @ stack) - insert p seen \<subseteq> universe og (p # stack) - seen"
    by (auto simp: universe_def)
  moreover have "p \<in> universe og (p # stack) - seen"
    using \<open>p \<notin> seen\<close> by (simp add: universe_def)
  moreover have "p \<notin> universe og (outs og p @ stack) - insert p seen"
    by simp
  ultimately have "universe og (outs og p @ stack) - insert p seen \<subset> universe og (p # stack) - seen"
    by blast
  with fin have "card (universe og (outs og p @ stack) - insert p seen)
                   < card (universe og (p # stack) - seen)"
    by (rule psubset_card_mono)
  then show "((og, outs og p @ stack, insert p seen), (og, p # stack, seen))
               \<in> inv_image (less_than <*lex*> less_than)
                   (\<lambda>(og, stack, seen). (card (universe og stack - seen), length stack))"
    by auto
qed

definition preorder :: "heap \<Rightarrow> Messages \<Rightarrow> Messages" where
  "preorder h roots = dfs_stack (map Out h) roots {}"

subsection \<open>Notions used in the proofs about the traversal\<close>

text \<open>The state after the call of the visitor on \<open>p\<close>: \<open>p\<close> is in the visited set, the
  visitor has its new state, and the call is logged.\<close>

definition mark :: "('s, 'e) vstate \<Rightarrow> msgptr \<Rightarrow> 'e option \<Rightarrow> 's \<Rightarrow> ('s, 'e) vstate" where
  "mark st p err s' = st\<lparr>mset := insert p (mset st), fnst := s', calls := calls st @ [(p, err)]\<rparr>"

text \<open>The addresses of the heap that are not in the visited set: their number bounds the
  depth of the calls still to come.\<close>

definition unseen :: "heap \<Rightarrow> MessageSet \<Rightarrow> nat set" where
  "unseen h s = {a. a < length h \<and> Some a \<notin> s}"

text \<open>No logged call returned an error; and what the log looks like for each outcome.\<close>

definition all_nil :: "(msgptr \<times> 'e option) list \<Rightarrow> bool" where
  "all_nil cs = list_all (\<lambda>c. snd c = None) cs"

definition outcome_ok :: "heap \<Rightarrow> 'e outcome \<Rightarrow> (msgptr \<times> 'e option) list \<Rightarrow> bool" where
  "outcome_ok h r cs =
     (case r of
        ReturnNil \<Rightarrow> all_nil cs
      | ReturnErr e \<Rightarrow> cs \<noteq> [] \<and> snd (last cs) = Some e \<and> all_nil (butlast cs)
      | Panicked x \<Rightarrow> cs \<noteq> [] \<and> \<not> live h (fst (last cs)) \<and> all_nil cs)"

text \<open>How a run of the loop over \<open>xs\<close> from the state \<open>st\<close> relates to the search with a
  stack: the nodes it visits are a prefix of what the search emits from a stack that
  starts with \<open>xs\<close>, and when it returns nil they are what the search emits before it
  goes on with the rest of the stack.\<close>

definition dfs_rel ::
  "Messages list \<Rightarrow> Messages \<Rightarrow> ('s, 'e) vstate \<Rightarrow> 'e outcome \<Rightarrow> ('s, 'e) vstate \<Rightarrow> bool" where
  "dfs_rel og xs st r st' =
     (\<exists>new. visited st' = visited st @ new \<and> mset st' = mset st \<union> set new \<and>
        (\<forall>stack. prefix new (dfs_stack og (xs @ stack) (mset st)) \<and>
                 (r = ReturnNil \<longrightarrow>
                    dfs_stack og (xs @ stack) (mset st) = new @ dfs_stack og stack (mset st'))))"

subsection \<open>Example graphs\<close>

definition mk :: "string \<Rightarrow> string \<Rightarrow> string \<Rightarrow> Messages \<Rightarrow> Messages \<Rightarrow> Message" where
  "mk i r c ins os = \<lparr>ID = i, ChatMessage = \<lparr>Role = r, Content = c\<rparr>, In = ins, Out = os\<rparr>"

text \<open>Two messages linked both ways, as \<^verbatim>\<open>m1.AddOutIn(m2)\<close> leaves them, both in the flat
  collection of the chat.\<close>

definition pair_heap :: heap where
  "pair_heap = [mk ''1'' ''user'' ''a'' [] [Some 1], mk ''2'' ''assistant'' ''b'' [Some 0] []]"

definition pair_chat :: Chat where
  "pair_chat = \<lparr>ChatID = ''chat-1'', Name = ''Test Chat'', Messages = [Some 0, Some 1]\<rparr>"

text \<open>What the two messages look like after \<^verbatim>\<open>HydrateMessages\<close>: a nil pointer in front of
  each edge.\<close>

definition pair_hydrated :: heap where
  "pair_hydrated = [mk ''1'' ''user'' ''a'' [] [None, Some 1],
                    mk ''2'' ''assistant'' ''b'' [None, Some 0] []]"

text \<open>The struct that \<^verbatim>\<open>json.Unmarshal\<close> is meant to fill for the first of the two messages,
  and a decoder that gives it for every input.\<close>

definition first_raw :: raw where
  "first_raw = \<lparr>raw_ID = ''1'', raw_Role = ''user'', raw_Content = ''a'',
                 raw_In = [], raw_Out = [''2'']\<rparr>"

definition decode_first :: "string \<Rightarrow> string + raw" where
  "decode_first b = Inr first_raw"

text \<open>The text that \<^verbatim>\<open>MarshalJSON\<close> writes for the first of the two messages.\<close>

definition first_json :: string where
  \<open>first_json = ''{"id":"1","role":"user","content":"a","in":[],"out":[2]}''\<close>

text \<open>An empty message, as \<^verbatim>\<open>json.Unmarshal\<close> allocates one before it calls
  \<^verbatim>\<open>UnmarshalJSON\<close> on it, put behind the two messages; and what \<^verbatim>\<open>UnmarshalJSON\<close> with that
  decoder makes of it: the fields of the first message and an edge to a new stub.\<close>

definition pair_fresh :: heap where
  "pair_fresh = pair_heap @ [new_Message []]"

definition pair_loaded :: heap where
  "pair_loaded = pair_heap @ [mk ''1'' ''user'' ''a'' [] [Some 3], new_Message ''2'']"

definition pair_reloaded :: heap where
  "pair_reloaded = pair_heap @ [mk ''1'' ''user'' ''a'' [] [None, Some 1], new_Message ''2'']"

text \<open>A message whose \<^verbatim>\<open>In\<close> list holds a message with content and role but no ID.\<close>

definition noid_heap :: heap where
  "noid_heap = [mk ''1'' ''user'' ''a'' [Some 1] [], mk [] ''user'' ''hi'' [] []]"


definition thread_heap :: heap where
  "thread_heap = [mk ''0'' ''system'' ''Be brief.'' [] [],
                  mk ''1'' ''user'' ''Hi'' [] [],
                  mk ''2'' ''assistant'' ''Hello'' [] []]"

text \<open>A completion service that answers with the transcript it was sent, and one that
  fails.\<close>

definition echo :: "CreateChatRequest \<Rightarrow> string + CreateChatResponse" where
  "echo req = Inr \<lparr>Choices = [\<lparr>Role = ''assistant'', Content = Content (last (ReqMessages req))\<rparr>]\<rparr>"

definition unavailable :: "CreateChatRequest \<Rightarrow> string + CreateChatResponse" where
  "unavailable req = Inl ''unavailable''"

text \<open>The chain of the test "deep": four messages, each the only out-neighbour of the one
  before, and the first one the only root.\<close>

definition chain_heap :: heap where
  "chain_heap = [mk ''message-1'' ''user'' ''a'' [] [Some 1],
                 mk ''message-2'' ''assistant'' ''b'' [] [Some 2],
                 mk ''message-3'' ''user'' ''c'' [] [Some 3],
                 mk ''message-4'' ''assistant'' ''d'' [] []]"

definition chain_chat :: Chat where
  "chain_chat = \<lparr>ChatID = ''chat-1'', Name = ''Test Chat'', Messages = [Some 0]\<rparr>"

text \<open>Two messages in a cycle, the first one the only root.\<close>

definition cycle_heap :: heap where
  "cycle_heap = [mk ''A'' ''user'' ''a'' [] [Some 1], mk ''B'' ''user'' ''b'' [] [Some 0]]"

definition cycle_chat :: Chat where
  "cycle_chat = \<lparr>ChatID = ''chat-2'', Name = ''Cycle'', Messages = [Some 0]\<rparr>"



definition never_fail :: "unit \<Rightarrow> msgptr \<Rightarrow> string option \<times> unit" where
  "never_fail u p = (None, ())"

section \<open>Theorems\<close>

subsection \<open>Pointers\<close>

lemma deref_live: "live h p \<Longrightarrow> deref h p = Some (h ! the p)"
  by (auto simp: live_def deref_def split: option.splits if_splits)

lemma deref_map: "deref (map f h) p = map_option f (deref h p)"
  by (simp add: deref_def split: option.splits)

subsection \<open>GetMessages\<close>

lemma GetMessages_ids_live:
  "live h msg \<Longrightarrow>
   GetMessages_ids h msg ids msgs =
     Inr (msgs @ map fst (filter (\<lambda>(p, i). IDof h p = i) (map (Pair msg) ids)))"
  by (induction ids arbitrary: msgs) (auto simp: live_def IDof_def)

lemma GetMessages_range_live:
  "list_all (live h) ms \<Longrightarrow>
   GetMessages_range h ms ids msgs = Inr (msgs @ map fst (matching_pairs h ms ids))"
  by (induction ms arbitrary: msgs) (simp_all add: matching_pairs_def GetMessages_ids_live)

lemma GetMessages_live:
  "list_all (live h) (Messages graph) \<Longrightarrow>
   GetMessages h graph ids =
     Inr (replicate (length ids) None @ map fst (matching_pairs h (Messages graph) ids))"
  by (simp add: GetMessages_def GetMessages_range_live)

lemma pair_live: "list_all (live pair_heap) (Messages pair_chat)"
  by (simp add: live_def deref_def pair_heap_def pair_chat_def)

text \<open>
  Claim C10. For a chat whose flat collection holds live messages and a list of \<open>n\<close> ids,
  \<^verbatim>\<open>GetMessages\<close> returns \<open>n\<close> nil pointers followed by the matching messages in
  flat-collection order: its length is \<open>n\<close> plus the number of (message, id) pairs with
  matching ID, its first \<open>n\<close> elements are nil, the rest are the matching messages, and
  for a non-empty list of ids the result is never the list of the matched messages
  alone.
\<close>

theorem GetMessages_nil_prefix:
  assumes "list_all (live h) (Messages graph)"
  shows "\<exists>msgs. GetMessages h graph ids = Inr msgs
           \<and> msgs = replicate (length ids) None @ map fst (matching_pairs h (Messages graph) ids)
           \<and> length msgs = length ids + length (matching_pairs h (Messages graph) ids)
           \<and> take (length ids) msgs = replicate (length ids) None
           \<and> drop (length ids) msgs = map fst (matching_pairs h (Messages graph) ids)
           \<and> (ids \<noteq> [] \<longrightarrow> msgs \<noteq> map fst (matching_pairs h (Messages graph) ids))"
proof -
  let ?m = "map fst (matching_pairs h (Messages graph) ids)"
  have "GetMessages h graph ids = Inr (replicate (length ids) None @ ?m)"
    using assms by (rule GetMessages_live)
  moreover have "ids \<noteq> [] \<Longrightarrow> replicate (length ids) None @ ?m \<noteq> ?m"
    by simp
  ultimately show ?thesis by simp
qed

text \<open>On the chat of two linked messages with IDs 1 and 2, the ids 2, 1, 2 give three
  nil pointers, then the first message once and the second one twice.\<close>

theorem GetMessages_nil_prefix_witness:
  "list_all (live pair_heap) (Messages pair_chat)
   \<and> [''2'', ''1'', ''2''] \<noteq> ([] :: string list)
   \<and> GetMessages pair_heap pair_chat [''2'', ''1'', ''2'']
       = Inr [None, None, None, Some 0, Some 1, Some 1]"
proof -
  have m: "map fst (matching_pairs pair_heap (Messages pair_chat) [''2'', ''1'', ''2''])
             = [Some 0, Some 1, Some 1]"
    by (simp add: matching_pairs_def pair_heap_def pair_chat_def IDof_def deref_def mk_def)
  from GetMessages_nil_prefix [OF pair_live, of "[''2'', ''1'', ''2'']"] m
  show ?thesis by (auto simp: pair_live)
qed

subsection \<open>Hydrated\<close>

lemma Hydrated_in_live:
  "list_all (live h) ps \<Longrightarrow>
   Hydrated_in h ps
     = Inr (list_all (\<lambda>p. case deref h p of None \<Rightarrow> False | Some m \<Rightarrow> populated m) ps)"
  by (induction ps) (auto simp: deref_live populated_def)

lemma Hydrated_In_live:
  "In_live h msgs \<Longrightarrow> Hydrated h msgs = Inr (all_In_populated h msgs)"
  by (induction msgs)
     (auto simp: In_live_def all_In_populated_def deref_live Inof_def Hydrated_in_live)

lemma Hydrated_in_Out: "Hydrated_in (map (\<lambda>m. m\<lparr>Out := f m\<rparr>) h) ps = Hydrated_in h ps"
  by (induction ps) (auto simp: deref_map split: option.splits)

lemma Hydrated_Out: "Hydrated (map (\<lambda>m. m\<lparr>Out := f m\<rparr>) h) msgs = Hydrated h msgs"
  by (induction msgs) (auto simp: deref_map Hydrated_in_Out split: option.splits sum.splits)

lemma stub_not_populated: "stub_in_In h msgs \<Longrightarrow> \<not> all_In_populated h msgs"
  by (auto simp: stub_in_In_def all_In_populated_def list_ex_iff list_all_iff is_stub_def
        populated_def split: option.splits)

text \<open>
  Claim C9, as stated, fails: \<^verbatim>\<open>Hydrated\<close> also returns false for an \<^verbatim>\<open>In\<close> node that has
  content and role but an empty ID, which is not a stub; the code tests \<^verbatim>\<open>in.ID == ""\<close>
  first. Here the only \<^verbatim>\<open>In\<close> node has role "user", content "hi" and no ID.
\<close>

theorem Hydrated_false_without_stub:
  "Hydrated noid_heap [Some 0] = Inr False \<and> \<not> stub_in_In noid_heap [Some 0]"
  by (simp add: noid_heap_def mk_def deref_def stub_in_In_def Inof_def is_stub_def)

text \<open>
  Claim C9, amended. For a collection of live messages whose \<^verbatim>\<open>In\<close> lists hold live
  messages, \<^verbatim>\<open>Hydrated\<close> returns true if and only if every node of every \<^verbatim>\<open>In\<close> list has a
  non-empty ID and a non-empty role or content. So it returns false when a stub remains
  in an \<^verbatim>\<open>In\<close> list, it returns true when the \<^verbatim>\<open>In\<close> lists hold only fully populated
  messages, and replacing the \<^verbatim>\<open>Out\<close> lists by any others does not change the verdict.
\<close>

theorem Hydrated_iff_In_populated:
  assumes "In_live h msgs"
  shows "Hydrated h msgs = Inr (all_In_populated h msgs)
         \<and> (stub_in_In h msgs \<longrightarrow> Hydrated h msgs = Inr False)
         \<and> Hydrated (map (\<lambda>m. m\<lparr>Out := f m\<rparr>) h) msgs = Hydrated h msgs"
  using assms by (simp add: Hydrated_In_live Hydrated_Out stub_not_populated)

theorem Hydrated_iff_In_populated_witness:
  "In_live pair_heap [Some 0, Some 1] \<and> all_In_populated pair_heap [Some 0, Some 1]
   \<and> Hydrated pair_heap [Some 0, Some 1] = Inr True
   \<and> In_live noid_heap [Some 0] \<and> Hydrated noid_heap [Some 0] = Inr False"
proof -
  have 1: "In_live pair_heap [Some 0, Some 1]"
    by (simp add: In_live_def live_def deref_def Inof_def pair_heap_def mk_def)
  have 2: "all_In_populated pair_heap [Some 0, Some 1]"
    by (simp add: all_In_populated_def populated_def deref_def Inof_def pair_heap_def mk_def)
  have 3: "In_live noid_heap [Some 0]"
    by (simp add: In_live_def live_def deref_def Inof_def noid_heap_def mk_def)
  have 4: "\<not> all_In_populated noid_heap [Some 0]"
    by (simp add: all_In_populated_def populated_def deref_def Inof_def noid_heap_def mk_def)
  from Hydrated_iff_In_populated [OF 1] Hydrated_iff_In_populated [OF 3] 1 2 3 4
  show ?thesis by simp
qed

subsection \<open>Hydrate and the round trip through JSON\<close>

lemma IDs_length: "IDs h ps = Inr ids \<Longrightarrow> length ids = length ps"
  by (induction ps arbitrary: ids) (auto split: option.splits sum.splits)

lemma GetMessages_ids_prefix: "GetMessages_ids h msg ids acc = Inr r \<Longrightarrow> prefix acc r"
proof (induction ids arbitrary: acc)
  case Nil
  then show ?case by simp
next
  case (Cons i ids)
  then obtain m where "deref h msg = Some m"
    and "GetMessages_ids h msg ids (if ID m = i then acc @ [msg] else acc) = Inr r"
    by (auto split: option.splits)
  from Cons.IH [OF this(2)] show ?case
    by (auto split: if_splits dest: append_prefixD)
qed

lemma GetMessages_range_prefix: "GetMessages_range h ms ids acc = Inr r \<Longrightarrow> prefix acc r"
proof (induction ms arbitrary: acc)
  case Nil
  then show ?case by simp
next
  case (Cons m ms)
  then obtain acc' where 1: "GetMessages_ids h m ids acc = Inr acc'"
    and 2: "GetMessages_range h ms ids acc' = Inr r"
    by (auto split: sum.splits)
  from GetMessages_ids_prefix [OF 1] Cons.IH [OF 2] show ?case
    by (rule prefix_order.trans)
qed

lemma GetMessages_take:
  assumes "GetMessages h graph ids = Inr r"
  shows "take (length ids) r = replicate (length ids) None"
proof -
  from assms have "prefix (replicate (length ids) None) r"
    unfolding GetMessages_def by (rule GetMessages_range_prefix)
  then obtain zs where "r = replicate (length ids) None @ zs"
    by (auto simp: prefix_def)
  then show ?thesis by simp
qed

lemma GetMessages_empty: "GetMessages_range h ms [] acc = Inr acc"
  by (induction ms) simp_all

lemma length_append_In: "length h \<le> length (append_In h a ids)"
proof (induction ids arbitrary: h)
  case Nil
  show ?case by simp
next
  case (Cons i ids)
  have "length h \<le> length (set_In (h @ [new_Message i]) a (In (h ! a) @ [Some (length h)]))"
    by (simp add: set_In_def)
  also have "\<dots> \<le> length (append_In (set_In (h @ [new_Message i]) a (In (h ! a) @ [Some (length h)])) a ids)"
    by (rule Cons.IH)
  finally show ?case by simp
qed

lemma Out_append_In: "a < length h \<Longrightarrow> Out (append_In h a ids ! a) = Out (h ! a)"
proof (induction ids arbitrary: h)
  case Nil
  show ?case by simp
next
  case (Cons i ids)
  let ?h = "set_In (h @ [new_Message i]) a (In (h ! a) @ [Some (length h)])"
  from Cons.prems have a: "a < length ?h"
    by (simp add: set_In_def)
  from Cons.prems have "Out (?h ! a) = Out (h ! a)"
    by (simp add: set_In_def nth_append)
  with Cons.IH [OF a] show ?case by simp
qed

lemma Out_append_Out:
  "a < length h \<Longrightarrow> length (Out (append_Out h a ids ! a)) = length (Out (h ! a)) + length ids"
proof (induction ids arbitrary: h)
  case Nil
  show ?case by simp
next
  case (Cons i ids)
  let ?h = "set_Out (h @ [new_Message i]) a (Out (h ! a) @ [Some (length h)])"
  from Cons.prems have a: "a < length ?h"
    by (simp add: set_Out_def)
  from Cons.prems have "length (Out (?h ! a)) = Suc (length (Out (h ! a)))"
    by (simp add: set_Out_def nth_append)
  with Cons.IH [OF a] show ?case by simp
qed

lemma length_append_Out: "length h \<le> length (append_Out h a ids)"
proof (induction ids arbitrary: h)
  case Nil
  show ?case by simp
next
  case (Cons i ids)
  have "length h \<le> length (set_Out (h @ [new_Message i]) a (Out (h ! a) @ [Some (length h)]))"
    by (simp add: set_Out_def)
  also have "\<dots> \<le> length (append_Out (set_Out (h @ [new_Message i]) a (Out (h ! a) @ [Some (length h)])) a ids)"
    by (rule Cons.IH)
  finally show ?case by simp
qed

text \<open>What \<^verbatim>\<open>Hydrate\<close> leaves in the \<^verbatim>\<open>Out\<close> list of a message when it returns: as many nil
  pointers in front as the list had entries.\<close>

lemma Hydrate_msg_Out:
  assumes "Hydrate_msg h (Some a) graph = Inr h'"
  shows "a < length h \<and> length (Out (h' ! a)) \<ge> length (Out (h ! a))
         \<and> take (length (Out (h ! a))) (Out (h' ! a)) = replicate (length (Out (h ! a))) None
         \<and> (Out (h ! a) = [] \<longrightarrow> Out (h' ! a) = [])"
proof -
  from assms have a: "a < length h"
    by (auto simp: Hydrate_msg_def split: if_splits)
  with assms obtain in_ids ins out_ids outs where
    1: "IDs h (In (h ! a)) = Inr in_ids" and 2: "GetMessages h graph in_ids = Inr ins"
    and 3: "IDs (set_In h a ins) (Out (set_In h a ins ! a)) = Inr out_ids"
    and 4: "GetMessages (set_In h a ins) graph out_ids = Inr outs"
    and 5: "h' = set_Out (set_In h a ins) a outs"
    by (auto simp: Hydrate_msg_def Let_def split: sum.splits)
  from a have o: "Out (set_In h a ins ! a) = Out (h ! a)"
    by (simp add: set_In_def)
  from a 5 have o': "Out (h' ! a) = outs"
    by (simp add: set_Out_def set_In_def)
  from IDs_length [OF 3] o have len: "length out_ids = length (Out (h ! a))"
    by simp
  from GetMessages_take [OF 4] len
  have t: "take (length (Out (h ! a))) outs = replicate (length (Out (h ! a))) None"
    by simp
  then have "length (Out (h ! a)) \<le> length outs"
    by (metis length_replicate length_take min.cobounded1 min.commute)
  moreover have "outs = []" if "Out (h ! a) = []"
    using 4 len that by (simp add: GetMessages_def GetMessages_empty)
  ultimately show ?thesis
    using a t o' by simp
qed

lemma take_replicate_None_hd:
  assumes "take n xs = replicate n None" "0 < n"
  shows "\<exists>rest. xs = None # rest"
proof (cases xs)
  case Nil
  with assms show ?thesis by simp
next
  case (Cons x rest)
  with assms show ?thesis by (cases n) simp_all
qed

lemma roundtrip_any_decoder:
  fixes dec :: "string \<Rightarrow> 'e + raw"
  assumes U: "UnmarshalJSON dec pair_fresh (Some 2) first_json = Inr (None, h1)"
    and H: "Hydrate h1 [Some 2] pair_chat = Inr h2"
    and I: "IDs h2 (Out (h2 ! 2)) = Inr ids"
  shows "ids = []"
proof -
  have len: "length pair_fresh = 3"
    by (simp add: pair_fresh_def pair_heap_def)
  from U obtain r where r: "dec first_json = Inr r"
    by (auto simp: UnmarshalJSON_def split: sum.splits)
  define h0 where "h0 = pair_fresh[2 := (pair_fresh ! 2)\<lparr>ID := raw_ID r,
                     ChatMessage := \<lparr>Role = raw_Role r, Content = raw_Content r\<rparr>\<rparr>]"
  have l0: "2 < length h0" and o0: "Out (h0 ! 2) = []"
    by (simp_all add: h0_def len pair_fresh_def pair_heap_def new_Message_def)
  from U r have h1: "h1 = append_Out (append_In h0 2 (raw_In r)) 2 (raw_Out r)"
    by (simp add: UnmarshalJSON_def len h0_def Let_def)
  from l0 length_append_In [of h0 2 "raw_In r"] have l1: "2 < length (append_In h0 2 (raw_In r))"
    by simp
  from Out_append_Out [OF l1, of "raw_Out r"] Out_append_In [OF l0, of "raw_In r"] o0
  have n: "length (Out (h1 ! 2)) = length (raw_Out r)"
    by (simp add: h1)
  from H have "Hydrate_msg h1 (Some 2) pair_chat = Inr h2"
    by (simp split: sum.splits)
  from Hydrate_msg_Out [OF this]
  have t: "take (length (Out (h1 ! 2))) (Out (h2 ! 2)) = replicate (length (Out (h1 ! 2))) None"
    and e: "Out (h1 ! 2) = [] \<longrightarrow> Out (h2 ! 2) = []"
    by simp_all
  show ?thesis
  proof (cases "raw_Out r = []")
    case True
    with n e have "Out (h2 ! 2) = []" by simp
    with I show ?thesis by simp
  next
    case False
    with n have "0 < length (Out (h1 ! 2))" by simp
    from take_replicate_None_hd [OF t this] obtain rest where "Out (h2 ! 2) = None # rest"
      by blast
    with I show ?thesis
      by (simp add: deref_def)
  qed
qed

text \<open>
  Claim C7 fails on the code. The chat of two messages linked both ways is hydrated by
  the code's own test (\<^verbatim>\<open>Hydrated\<close> returns true), and each edge list holds a fully
  populated message of the flat collection. \<^verbatim>\<open>HydrateMessages\<close> changes both edge lists: the
  \<^verbatim>\<open>Out\<close> list of the first message and the \<^verbatim>\<open>In\<close> list of the second get a nil pointer in
  front, because \<^verbatim>\<open>GetMessages\<close> starts from \<^verbatim>\<open>make(Messages, len(ids))\<close>. A second
  \<^verbatim>\<open>HydrateMessages\<close> then panics on the nil pointer, and so does \<^verbatim>\<open>Hydrated\<close>.
\<close>

theorem Hydrate_prepends_nil:
  "Hydrated pair_heap (Messages pair_chat) = Inr True
   \<and> Out (pair_heap ! 0) = [Some 1] \<and> In (pair_heap ! 1) = [Some 0]
   \<and> HydrateMessages pair_heap pair_chat = Inr pair_hydrated
   \<and> Out (pair_hydrated ! 0) = [None, Some 1] \<and> In (pair_hydrated ! 1) = [None, Some 0]
   \<and> HydrateMessages pair_hydrated pair_chat = Inl NilPointerDereference
   \<and> Hydrated pair_hydrated (Messages pair_chat) = Inl NilPointerDereference"
  by (simp add: HydrateMessages_def Hydrate_msg_def GetMessages_def pair_heap_def pair_chat_def
        pair_hydrated_def mk_def deref_def set_In_def set_Out_def)

text \<open>
  Claim C6 fails on the code. \<^verbatim>\<open>MarshalJSON\<close> of the first of the two linked messages
  writes the ID of its out-neighbour without quotes, as the number 2, where
  \<^verbatim>\<open>UnmarshalJSON\<close> decodes a list of strings. Whatever the decoder makes of that text, the
  round trip does not give the \<^verbatim>\<open>Out\<close> list its one ID back: if \<^verbatim>\<open>UnmarshalJSON\<close> on a new
  message and \<^verbatim>\<open>Hydrate\<close> against the original chat both return, the \<^verbatim>\<open>Out\<close> list is empty or
  starts with a nil pointer. With a decoder that returns the IDs that were meant,
  \<^verbatim>\<open>UnmarshalJSON\<close> makes a stub for the ID 2, and \<^verbatim>\<open>Hydrate\<close> replaces the \<^verbatim>\<open>Out\<close> list by a nil
  pointer followed by the second message.
\<close>

theorem roundtrip_loses_edge:
  \<open>MarshalJSON pair_heap (Some 0) = Inr first_json
   \<and> first_json = ''{"id":"1","role":"user","content":"a","in":[],"out":[2]}''
   \<and> IDs pair_heap (Out (pair_heap ! 0)) = Inr [''2'']
   \<and> (\<forall>dec :: string \<Rightarrow> string + raw.
         \<not> (\<exists>h1 h2 ids. UnmarshalJSON dec pair_fresh (Some 2) first_json = Inr (None, h1)
                \<and> Hydrate h1 [Some 2] pair_chat = Inr h2
                \<and> IDs h2 (Out (h2 ! 2)) = Inr ids
                \<and> Multiset.mset ids = Multiset.mset [''2'']))
   \<and> UnmarshalJSON decode_first pair_fresh (Some 2) first_json = Inr (None, pair_loaded)
   \<and> IDs pair_loaded (Out (pair_loaded ! 2)) = Inr [''2'']
   \<and> Hydrate pair_loaded [Some 2] pair_chat = Inr pair_reloaded
   \<and> Out (pair_reloaded ! 2) = [None, Some 1]
   \<and> IDs pair_reloaded (Out (pair_reloaded ! 2)) = Inl NilPointerDereference\<close>
proof -
  have 1: "MarshalJSON pair_heap (Some 0) = Inr first_json"
    by (simp add: MarshalJSON_def first_json_def pair_heap_def mk_def deref_def)
  have 2: "IDs pair_heap (Out (pair_heap ! 0)) = Inr [''2'']"
    by (simp add: pair_heap_def mk_def deref_def)
  have 0: \<open>first_json = ''{"id":"1","role":"user","content":"a","in":[],"out":[2]}''\<close>
    by (simp add: first_json_def)
  have "\<not> (\<exists>h1 h2 ids. UnmarshalJSON dec pair_fresh (Some 2) first_json = Inr (None, h1)
                \<and> Hydrate h1 [Some 2] pair_chat = Inr h2
                \<and> IDs h2 (Out (h2 ! 2)) = Inr ids
                \<and> Multiset.mset ids = Multiset.mset [''2''])" for dec :: "string \<Rightarrow> string + raw"
  proof
    assume "\<exists>h1 h2 ids. UnmarshalJSON dec pair_fresh (Some 2) first_json = Inr (None, h1)
                \<and> Hydrate h1 [Some 2] pair_chat = Inr h2
                \<and> IDs h2 (Out (h2 ! 2)) = Inr ids
                \<and> Multiset.mset ids = Multiset.mset [''2'']"
    then obtain h1 h2 ids where u: "UnmarshalJSON dec pair_fresh (Some 2) first_json = Inr (None, h1)"
      and h: "Hydrate h1 [Some 2] pair_chat = Inr h2" and i: "IDs h2 (Out (h2 ! 2)) = Inr ids"
      and m: "Multiset.mset ids = Multiset.mset [''2'']"
      by (elim exE conjE)
    from u h i have "ids = []" by (rule roundtrip_any_decoder)
    with m show False by simp
  qed
  then have 3: "\<forall>dec :: string \<Rightarrow> string + raw.
         \<not> (\<exists>h1 h2 ids. UnmarshalJSON dec pair_fresh (Some 2) first_json = Inr (None, h1)
                \<and> Hydrate h1 [Some 2] pair_chat = Inr h2
                \<and> IDs h2 (Out (h2 ! 2)) = Inr ids
                \<and> Multiset.mset ids = Multiset.mset [''2''])"
    by (rule allI)
  have 4: "UnmarshalJSON decode_first pair_fresh (Some 2) first_json = Inr (None, pair_loaded)"
    by (simp add: UnmarshalJSON_def decode_first_def first_raw_def pair_fresh_def
        pair_loaded_def new_Message_def pair_heap_def mk_def set_In_def set_Out_def)
  have 5: "IDs pair_loaded (Out (pair_loaded ! 2)) = Inr [''2'']"
    by (simp add: pair_loaded_def new_Message_def pair_heap_def mk_def deref_def)
  have 6: "Hydrate pair_loaded [Some 2] pair_chat = Inr pair_reloaded"
    by (simp add: pair_loaded_def pair_reloaded_def new_Message_def Hydrate_msg_def
        GetMessages_def pair_heap_def pair_chat_def mk_def deref_def set_In_def set_Out_def)
  have 7: "Out (pair_reloaded ! 2) = [None, Some 1]"
    by (simp add: pair_reloaded_def pair_heap_def mk_def)
  have 8: "IDs pair_reloaded (Out (pair_reloaded ! 2)) = Inl NilPointerDereference"
    by (simp add: 7 deref_def)
  show ?thesis
    by (intro conjI 0 1 2 3 4 5 6 7 8)
qed

subsection \<open>Search\<close>





subsection \<open>Summarize\<close>

lemma transcript_live:
  "list_all (live h) msgs \<Longrightarrow> transcript h msgs b = Inr (b @ concat (transcript_lines h msgs))"
  by (induction msgs arbitrary: b)
     (simp_all add: transcript_lines_def line_def deref_live ChatRoleSystem_def)

lemma thread_live: "list_all (live thread_heap) [Some 0, Some 1, Some 2]"
  by (simp add: live_def deref_def thread_heap_def)

lemma thread_lines:
  "transcript_lines thread_heap [Some 0, Some 1, Some 2]
     = [''user: Hi'' @ [CHR 0x0A], ''assistant: Hello'' @ [CHR 0x0A]]"
  by (simp add: transcript_lines_def line_def thread_heap_def mk_def)

text \<open>
  Claim C8. For a collection of live messages, the transcript is the concatenation of
  one line \<open>role: content\<close>, ended by a newline, for each message whose role is not
  "system", in input order. \<^verbatim>\<open>SummarizeWithSystemPrompt\<close> calls the completion service
  once, with the model and two entries: the instruction prompt with role "system" and
  the transcript with role "user". If the service fails, the function returns the empty
  string and an error that wraps the service's error after a text naming the number of
  messages; if it answers, the function returns the content of the first choice and no
  error (and panics on an answer without choices). \<^verbatim>\<open>Summarize\<close> is the same with the
  default prompt.
\<close>

theorem Summarize_request_and_result:
  assumes "list_all (live h) msgs"
  shows "SummarizeWithSystemPrompt CreateChat h msgs model prompt =
           (case CreateChat \<lparr>Model = model,
                             ReqMessages = [\<lparr>Role = ''system'', Content = prompt\<rparr>,
                                            \<lparr>Role = ''user'', Content = concat (transcript_lines h msgs)\<rparr>]\<rparr> of
              Inl err \<Rightarrow>
                Inr ([], Some (Errorf (''failed to create summary of '' @ decimal (length msgs)
                                        @ '' chat messages: '') err))
            | Inr summary \<Rightarrow>
                (case Choices summary of
                   [] \<Rightarrow> Inl IndexOutOfRange
                 | c # cs \<Rightarrow> Inr (Content c, None)))
         \<and> Summarize CreateChat h msgs model =
             SummarizeWithSystemPrompt CreateChat h msgs model DefaultSummaryPrompt"
  by (simp add: SummarizeWithSystemPrompt_def Summarize_def transcript_live [OF assms]
        ChatRoleSystem_def ChatRoleUser_def)

text \<open>A thread of a system, a user and an assistant message: the service that echoes
  its input receives the two lines of the user and the assistant, and the failure of
  the other service comes back wrapped, with the count 3.\<close>

theorem Summarize_request_and_result_witness:
  "list_all (live thread_heap) [Some 0, Some 1, Some 2]
   \<and> SummarizeWithSystemPrompt echo thread_heap [Some 0, Some 1, Some 2] ''gpt-4'' ''Summarize.''
       = Inr (''user: Hi'' @ [CHR 0x0A] @ ''assistant: Hello'' @ [CHR 0x0A], None)
   \<and> SummarizeWithSystemPrompt unavailable thread_heap [Some 0, Some 1, Some 2] ''gpt-4'' ''Summarize.''
       = Inr ([], Some (Errorf ''failed to create summary of 3 chat messages: '' ''unavailable''))"
proof -
  note sm = Summarize_request_and_result [OF thread_live, of _ "''gpt-4''" "''Summarize.''",
              THEN conjunct1, unfolded thread_lines]
  have "SummarizeWithSystemPrompt echo thread_heap [Some 0, Some 1, Some 2] ''gpt-4'' ''Summarize.''
          = Inr (''user: Hi'' @ [CHR 0x0A] @ ''assistant: Hello'' @ [CHR 0x0A], None)"
    unfolding sm [of echo] by (simp add: echo_def)
  moreover
  have "SummarizeWithSystemPrompt unavailable thread_heap [Some 0, Some 1, Some 2] ''gpt-4'' ''Summarize.''
          = Inr ([], Some (Errorf ''failed to create summary of 3 chat messages: '' ''unavailable''))"
    unfolding sm [of unavailable] by (simp add: unavailable_def decimal.simps)
  ultimately show ?thesis
    using thread_live by blast
qed

subsection \<open>The traversal: rules for the loop and the recursion\<close>

lemma VisitMessages_Suc:
  "VisitMessages (Suc k) h fn p st =
     (if p \<in> mset st then Some (ReturnNil, st)
      else case fn (fnst st) p of
             (Some e, s') \<Rightarrow> Some (ReturnErr e, mark st p (Some e) s')
           | (None, s') \<Rightarrow>
               (case deref h p of
                  None \<Rightarrow> Some (Panicked NilPointerDereference, mark st p None s')
                | Some m \<Rightarrow> range_Visit (VisitMessages k h fn) (Out m) (mark st p None s')))"
  by (simp add: Has_def Add_def mark_def Let_def split: prod.splits option.splits)

lemma range_Visit_Cons:
  "range_Visit visit (x # xs) st =
     (if x \<in> mset st then range_Visit visit xs st
      else case visit x st of
             None \<Rightarrow> None
           | Some (r, st') \<Rightarrow> if r = ReturnNil then range_Visit visit xs st' else Some (r, st'))"
  by (simp add: Has_def split: option.splits prod.splits outcome.splits)

declare range_Visit.simps(2) [simp del] VisitMessages.simps(2) [simp del]

lemma range_Visit_post:
  assumes run: "range_Visit visit xs st = Some (r, st')"
    and vis: "\<And>p st r st'. p \<notin> mset st \<Longrightarrow> visit p st = Some (r, st') \<Longrightarrow> Q p st r st'"
    and nil: "\<And>st. P [] st ReturnNil st"
    and skip: "\<And>x xs st r st'. x \<in> mset st \<Longrightarrow> P xs st r st' \<Longrightarrow> P (x # xs) st r st'"
    and stop: "\<And>x xs st r st'. x \<notin> mset st \<Longrightarrow> Q x st r st' \<Longrightarrow> r \<noteq> ReturnNil
                 \<Longrightarrow> P (x # xs) st r st'"
    and cont: "\<And>x xs st st1 r st'. x \<notin> mset st \<Longrightarrow> Q x st ReturnNil st1 \<Longrightarrow> P xs st1 r st'
                 \<Longrightarrow> P (x # xs) st r st'"
  shows "P xs st r st'"
  using run
proof (induction xs arbitrary: st)
  case Nil
  then show ?case by (simp add: nil)
next
  case (Cons x xs)
  show ?case
  proof (cases "x \<in> mset st")
    case True
    with Cons.prems have "range_Visit visit xs st = Some (r, st')"
      by (simp add: range_Visit_Cons)
    then show ?thesis using True Cons.IH skip by blast
  next
    case False
    with Cons.prems obtain r1 st1 where v: "visit x st = Some (r1, st1)"
      by (auto simp: range_Visit_Cons split: option.splits)
    show ?thesis
    proof (cases "r1 = ReturnNil")
      case True
      with Cons.prems False v have "range_Visit visit xs st1 = Some (r, st')"
        by (simp add: range_Visit_Cons)
      then have "P xs st1 r st'" by (rule Cons.IH)
      moreover have "Q x st ReturnNil st1" using vis [OF False v] True by simp
      ultimately show ?thesis using False cont by blast
    next
      case nn: False
      with Cons.prems False v have "r = r1" "st' = st1"
        by (simp_all add: range_Visit_Cons)
      with vis [OF False v] nn False show ?thesis using stop by blast
    qed
  qed
qed

lemma VisitMessages_post:
  assumes run: "VisitMessages k h fn p st = Some (r, st')" and new: "p \<notin> mset st"
    and nil: "\<And>st. P [] st ReturnNil st"
    and skip: "\<And>x xs st r st'. x \<in> mset st \<Longrightarrow> P xs st r st' \<Longrightarrow> P (x # xs) st r st'"
    and stop: "\<And>x xs st r st'. x \<notin> mset st \<Longrightarrow> Q x st r st' \<Longrightarrow> r \<noteq> ReturnNil
                 \<Longrightarrow> P (x # xs) st r st'"
    and cont: "\<And>x xs st st1 r st'. x \<notin> mset st \<Longrightarrow> Q x st ReturnNil st1 \<Longrightarrow> P xs st1 r st'
                 \<Longrightarrow> P (x # xs) st r st'"
    and err: "\<And>p st e s'. p \<notin> mset st \<Longrightarrow> fn (fnst st) p = (Some e, s')
                 \<Longrightarrow> Q p st (ReturnErr e) (mark st p (Some e) s')"
    and pan: "\<And>p st s'. p \<notin> mset st \<Longrightarrow> fn (fnst st) p = (None, s') \<Longrightarrow> deref h p = None
                 \<Longrightarrow> Q p st (Panicked NilPointerDereference) (mark st p None s')"
    and rec: "\<And>p st s' m r st'. p \<notin> mset st \<Longrightarrow> fn (fnst st) p = (None, s')
                 \<Longrightarrow> deref h p = Some m \<Longrightarrow> P (Out m) (mark st p None s') r st'
                 \<Longrightarrow> Q p st r st'"
  shows "Q p st r st'"
  using run new
proof (induction k arbitrary: p st r st')
  case 0
  then show ?case by simp
next
  case (Suc k)
  obtain err s' where f: "fn (fnst st) p = (err, s')"
    by (cases "fn (fnst st) p")
  show ?case
  proof (cases err)
    case (Some e)
    with Suc.prems f have "r = ReturnErr e" "st' = mark st p (Some e) s'"
      by (simp_all add: VisitMessages_Suc)
    with Suc.prems(2) f Some show ?thesis using err by blast
  next
    case None
    show ?thesis
    proof (cases "deref h p")
      case dn: None
      with Suc.prems f None
      have "r = Panicked NilPointerDereference" "st' = mark st p None s'"
        by (simp_all add: VisitMessages_Suc)
      with Suc.prems(2) f None dn show ?thesis using pan by blast
    next
      case (Some m)
      with Suc.prems f None
      have "range_Visit (VisitMessages k h fn) (Out m) (mark st p None s') = Some (r, st')"
        by (simp add: VisitMessages_Suc)
      then have "P (Out m) (mark st p None s') r st'"
        by (rule range_Visit_post [where Q = Q]) (blast intro: Suc.IH nil skip stop cont)+
      with Suc.prems(2) f None Some show ?thesis using rec by blast
    qed
  qed
qed

lemma Visit_post:
  assumes run: "range_Visit (VisitMessages k h fn) xs st = Some (r, st')"
    and nil: "\<And>st. P [] st ReturnNil st"
    and skip: "\<And>x xs st r st'. x \<in> mset st \<Longrightarrow> P xs st r st' \<Longrightarrow> P (x # xs) st r st'"
    and stop: "\<And>x xs st r st'. x \<notin> mset st \<Longrightarrow> Q x st r st' \<Longrightarrow> r \<noteq> ReturnNil
                 \<Longrightarrow> P (x # xs) st r st'"
    and cont: "\<And>x xs st st1 r st'. x \<notin> mset st \<Longrightarrow> Q x st ReturnNil st1 \<Longrightarrow> P xs st1 r st'
                 \<Longrightarrow> P (x # xs) st r st'"
    and err: "\<And>p st e s'. p \<notin> mset st \<Longrightarrow> fn (fnst st) p = (Some e, s')
                 \<Longrightarrow> Q p st (ReturnErr e) (mark st p (Some e) s')"
    and pan: "\<And>p st s'. p \<notin> mset st \<Longrightarrow> fn (fnst st) p = (None, s') \<Longrightarrow> deref h p = None
                 \<Longrightarrow> Q p st (Panicked NilPointerDereference) (mark st p None s')"
    and rec: "\<And>p st s' m r st'. p \<notin> mset st \<Longrightarrow> fn (fnst st) p = (None, s')
                 \<Longrightarrow> deref h p = Some m \<Longrightarrow> P (Out m) (mark st p None s') r st'
                 \<Longrightarrow> Q p st r st'"
  shows "P xs st r st'"
proof (rule range_Visit_post [OF run, where Q = Q])
  fix p st r st'
  assume "p \<notin> mset st" and "VisitMessages k h fn p st = Some (r, st')"
  from this(2) this(1) show "Q p st r st'"
    by (rule VisitMessages_post [where P = P]) (blast intro: nil skip stop cont err pan rec)+
qed (blast intro: nil skip stop cont)+

subsection \<open>The bound on the depth of the calls\<close>

lemma range_Visit_mono:
  assumes "\<And>p st x. visit p st = Some x \<Longrightarrow> visit' p st = Some x"
  shows "range_Visit visit xs st = Some x \<Longrightarrow> range_Visit visit' xs st = Some x"
proof (induction xs arbitrary: st)
  case Nil
  then show ?case by simp
next
  case (Cons y ys)
  then show ?case
    by (auto simp: range_Visit_Cons assms split: if_splits option.splits)
qed

lemma VisitMessages_mono_Suc:
  "VisitMessages k h fn p st = Some x \<Longrightarrow> VisitMessages (Suc k) h fn p st = Some x"
proof (induction k arbitrary: p st x)
  case 0
  then show ?case by simp
next
  case (Suc k)
  have "range_Visit (VisitMessages k h fn) xs st = Some y
          \<Longrightarrow> range_Visit (VisitMessages (Suc k) h fn) xs st = Some y" for xs st y
    by (rule range_Visit_mono [where visit = "VisitMessages k h fn"]) (rule Suc.IH)
  with Suc.prems show ?case
    by (subst VisitMessages_Suc, subst (asm) VisitMessages_Suc)
       (auto split: if_splits prod.splits option.splits)
qed

lemma VisitMessages_mono:
  "k \<le> k' \<Longrightarrow> VisitMessages k h fn p st = Some x \<Longrightarrow> VisitMessages k' h fn p st = Some x"
  by (induction k' rule: dec_induct) (simp_all add: VisitMessages_mono_Suc del: VisitMessages.simps)

lemma finite_unseen: "finite (unseen h s)"
  by (simp add: unseen_def)

lemma unseen_mono: "s \<subseteq> s' \<Longrightarrow> card (unseen h s') \<le> card (unseen h s)"
  by (rule card_mono [OF finite_unseen]) (auto simp: unseen_def)

lemma unseen_insert:
  assumes "deref h p = Some m" "p \<notin> s"
  shows "card (unseen h (insert p s)) < card (unseen h s)"
proof -
  from assms obtain a where a: "p = Some a" "a < length h"
    by (auto simp: deref_def split: option.splits if_splits)
  with assms have "a \<in> unseen h s" "a \<notin> unseen h (insert p s)"
    by (simp_all add: unseen_def)
  moreover have "unseen h (insert p s) \<subseteq> unseen h s"
    by (auto simp: unseen_def)
  ultimately have "unseen h (insert p s) \<subset> unseen h s"
    by blast
  then show ?thesis
    by (rule psubset_card_mono [OF finite_unseen])
qed

lemma range_Visit_total:
  assumes vis: "\<And>p st. card (unseen h (mset st)) < k
                  \<Longrightarrow> \<exists>r st'. visit p st = Some (r, st') \<and> mset st \<subseteq> mset st'"
  shows "card (unseen h (mset st)) < k
           \<Longrightarrow> \<exists>r st'. range_Visit visit xs st = Some (r, st') \<and> mset st \<subseteq> mset st'"
proof (induction xs arbitrary: st)
  case Nil
  then show ?case by simp
next
  case (Cons x xs)
  show ?case
  proof (cases "x \<in> mset st")
    case True
    with Cons show ?thesis by (simp add: range_Visit_Cons)
  next
    case False
    from vis [OF Cons.prems, of x] obtain r1 st1
      where v: "visit x st = Some (r1, st1)" and sub: "mset st \<subseteq> mset st1"
      by blast
    show ?thesis
    proof (cases "r1 = ReturnNil")
      case True
      from sub Cons.prems have "card (unseen h (mset st1)) < k"
        using unseen_mono [OF sub, of h] by simp
      from Cons.IH [OF this] obtain r st'
        where "range_Visit visit xs st1 = Some (r, st')" "mset st1 \<subseteq> mset st'"
        by blast
      with False v True sub show ?thesis
        by (auto simp: range_Visit_Cons)
    next
      case nn: False
      with False v sub show ?thesis
        by (simp add: range_Visit_Cons)
    qed
  qed
qed

lemma VisitMessages_total:
  "card (unseen h (mset st)) < k
     \<Longrightarrow> \<exists>r st'. VisitMessages k h fn p st = Some (r, st') \<and> mset st \<subseteq> mset st'"
proof (induction k arbitrary: p st)
  case 0
  then show ?case by simp
next
  case (Suc k)
  obtain err s' where f: "fn (fnst st) p = (err, s')"
    by (cases "fn (fnst st) p")
  show ?case
  proof (cases "p \<notin> mset st \<and> err = None \<and> deref h p \<noteq> None")
    case False
    with f show ?thesis
      by (auto simp: VisitMessages_Suc mark_def split: option.splits)
  next
    case True
    then obtain m where m: "deref h p = Some m" by blast
    from True m have "card (unseen h (mset (mark st p None s'))) < card (unseen h (mset st))"
      by (simp add: mark_def unseen_insert)
    with Suc.prems have "card (unseen h (mset (mark st p None s'))) < k"
      by simp
    then have "\<exists>r st'. range_Visit (VisitMessages k h fn) (Out m) (mark st p None s') = Some (r, st')
                 \<and> mset (mark st p None s') \<subseteq> mset st'"
      by (rule range_Visit_total [rotated]) (rule Suc.IH)
    with True f m show ?thesis
      by (auto simp: VisitMessages_Suc mark_def)
  qed
qed

lemma Visit_total:
  fixes fn :: "'s \<Rightarrow> msgptr \<Rightarrow> 'e option \<times> 's"
  shows "\<exists>r st'. range_Visit (VisitMessages (Suc (length h)) h fn) xs (start s) = Some (r, st')"
proof -
  have "card (unseen h (mset (start s :: ('s, 'e) vstate))) < Suc (length h)"
    by (simp add: unseen_def start_def NewMessageSet_def)
  then have "\<exists>r st'. range_Visit (VisitMessages (Suc (length h)) h fn) xs (start s) = Some (r, st')
               \<and> mset (start s :: ('s, 'e) vstate) \<subseteq> mset st'"
    by (rule range_Visit_total [rotated]) (rule VisitMessages_total)
  then show ?thesis by blast
qed

lemma Visit_outcome_ok:
  assumes "range_Visit (VisitMessages k h fn) xs st = Some (r, st')" "all_nil (calls st)"
  shows "outcome_ok h r (calls st')"
proof -
  let ?P = "\<lambda>(xs :: Messages) st r st'. all_nil (calls st) \<longrightarrow> outcome_ok h r (calls st')"
  let ?Q = "\<lambda>(p :: msgptr) st r st'. all_nil (calls st) \<longrightarrow> outcome_ok h r (calls st')"
  have "?P xs st r st'"
    using assms(1)
  proof (rule Visit_post [where P = ?P and Q = ?Q])
    fix p st s' m r st'
    assume "all_nil (calls (mark st p None s')) \<longrightarrow> outcome_ok h r (calls st')"
    then show "all_nil (calls st) \<longrightarrow> outcome_ok h r (calls st')"
      by (simp add: mark_def all_nil_def)
  qed (simp_all add: outcome_ok_def all_nil_def mark_def live_def)
  with assms(2) show ?thesis by simp
qed


lemma outs_deref_Some: "deref h p = Some m \<Longrightarrow> outs (map Out h) p = Out m"
  by (auto simp: deref_def outs_def split: option.splits if_splits)


lemma visited_mark: "visited (mark st p err s') = visited st @ [p]"
  by (simp add: visited_def mark_def)

lemma mset_mark: "mset (mark st p err s') = insert p (mset st)"
  by (simp add: mark_def)

lemma Visit_dfs_rel:
  fixes fn :: "'s \<Rightarrow> msgptr \<Rightarrow> 'e option \<times> 's"
  assumes "range_Visit (VisitMessages k h fn) xs st = Some (r, st')"
  shows "dfs_rel (map Out h) xs st r st'"
  using assms
proof (rule Visit_post [where P = "dfs_rel (map Out h)" and Q = "\<lambda>p. dfs_rel (map Out h) [p]"])
  fix st :: "('s, 'e) vstate"
  show "dfs_rel (map Out h) [] st ReturnNil st"
    by (simp add: dfs_rel_def)
next
  fix x xs and st st' :: "('s, 'e) vstate" and r
  assume "x \<in> mset st" "dfs_rel (map Out h) xs st r st'"
  then show "dfs_rel (map Out h) (x # xs) st r st'"
    by (simp add: dfs_rel_def)
next
  fix x xs and st st' :: "('s, 'e) vstate" and r :: "'e outcome"
  assume "x \<notin> mset st" "dfs_rel (map Out h) [x] st r st'" "r \<noteq> ReturnNil"
  then obtain new where "visited st' = visited st @ new" "mset st' = mset st \<union> set new"
    "\<And>stack. prefix new (dfs_stack (map Out h) ([x] @ stack) (mset st))"
    unfolding dfs_rel_def by blast
  with \<open>r \<noteq> ReturnNil\<close> show "dfs_rel (map Out h) (x # xs) st r st'"
    unfolding dfs_rel_def by (intro exI [of _ new]) (simp del: dfs_stack.simps)
next
  fix x xs and st st1 st' :: "('s, 'e) vstate" and r :: "'e outcome"
  assume x: "x \<notin> mset st" and 1: "dfs_rel (map Out h) [x] st ReturnNil st1"
    and 2: "dfs_rel (map Out h) xs st1 r st'"
  from 1 obtain n1 where n1: "visited st1 = visited st @ n1" "mset st1 = mset st \<union> set n1"
    "\<And>stack. dfs_stack (map Out h) ([x] @ stack) (mset st) = n1 @ dfs_stack (map Out h) stack (mset st1)"
    unfolding dfs_rel_def by blast
  from 2 obtain n2 where n2: "visited st' = visited st1 @ n2" "mset st' = mset st1 \<union> set n2"
    "\<And>stack. prefix n2 (dfs_stack (map Out h) (xs @ stack) (mset st1))"
    "\<And>stack. r = ReturnNil \<Longrightarrow>
       dfs_stack (map Out h) (xs @ stack) (mset st1) = n2 @ dfs_stack (map Out h) stack (mset st')"
    unfolding dfs_rel_def by blast
  have "visited st' = visited st @ (n1 @ n2)" "mset st' = mset st \<union> set (n1 @ n2)"
    using n1(1,2) n2(1,2) by auto
  moreover have "prefix (n1 @ n2) (dfs_stack (map Out h) ((x # xs) @ stack) (mset st))" for stack
    using n1(3) [of "xs @ stack"] n2(3) [of stack] by (simp del: dfs_stack.simps)
  moreover have "r = ReturnNil \<Longrightarrow> dfs_stack (map Out h) ((x # xs) @ stack) (mset st)
                   = (n1 @ n2) @ dfs_stack (map Out h) stack (mset st')" for stack
    using n1(3) [of "xs @ stack"] n2(4) [of stack] by (simp del: dfs_stack.simps)
  ultimately show "dfs_rel (map Out h) (x # xs) st r st'"
    unfolding dfs_rel_def by blast
next
  fix p e s' and st :: "('s, 'e) vstate"
  assume "p \<notin> mset st"
  then show "dfs_rel (map Out h) [p] st (ReturnErr e) (mark st p (Some e) s')"
    unfolding dfs_rel_def
    by (intro exI [of _ "[p]"]) (simp add: visited_mark mset_mark)
next
  fix p s' and st :: "('s, 'e) vstate"
  assume "p \<notin> mset st"
  then show "dfs_rel (map Out h) [p] st (Panicked NilPointerDereference) (mark st p None s')"
    unfolding dfs_rel_def
    by (intro exI [of _ "[p]"]) (simp add: visited_mark mset_mark)
next
  fix p s' m r and st st' :: "('s, 'e) vstate"
  assume p: "p \<notin> mset st" and m: "deref h p = Some m"
    and 2: "dfs_rel (map Out h) (Out m) (mark st p None s') r st'"
  from 2 obtain n2 where n2: "visited st' = visited st @ [p] @ n2"
    "mset st' = insert p (mset st) \<union> set n2"
    "\<And>stack. prefix n2 (dfs_stack (map Out h) (Out m @ stack) (insert p (mset st)))"
    "\<And>stack. r = ReturnNil \<Longrightarrow>
       dfs_stack (map Out h) (Out m @ stack) (insert p (mset st))
         = n2 @ dfs_stack (map Out h) stack (mset st')"
    unfolding dfs_rel_def visited_mark mset_mark by auto
  have "visited st' = visited st @ (p # n2)" "mset st' = mset st \<union> set (p # n2)"
    using n2(1,2) by auto
  moreover have "prefix (p # n2) (dfs_stack (map Out h) ([p] @ stack) (mset st))" for stack
    using n2(3) [of stack] p by (simp add: outs_deref_Some [OF m])
  moreover have "r = ReturnNil \<Longrightarrow> dfs_stack (map Out h) ([p] @ stack) (mset st)
                   = (p # n2) @ dfs_stack (map Out h) stack (mset st')" for stack
    using n2(4) [of stack] p by (simp add: outs_deref_Some [OF m])
  ultimately show "dfs_rel (map Out h) [p] st r st'"
    unfolding dfs_rel_def by blast
qed

subsection \<open>Depth-first pre-order with a stack\<close>








lemma Visit_preorder:
  fixes fn :: "'s \<Rightarrow> msgptr \<Rightarrow> 'e option \<times> 's"
  assumes "range_Visit (VisitMessages k h fn) roots (start s) = Some (r, st')"
  shows "prefix (visited st') (preorder h roots)"
    and "r = ReturnNil \<Longrightarrow> visited st' = preorder h roots"
    and "mset st' = set (visited st')"
proof -
  from Visit_dfs_rel [OF assms] obtain new where
    n: "visited st' = visited (start s :: ('s, 'e) vstate) @ new"
       "mset st' = mset (start s :: ('s, 'e) vstate) \<union> set new"
       "\<And>stack. prefix new (dfs_stack (map Out h) (roots @ stack) (mset (start s :: ('s, 'e) vstate)))"
       "\<And>stack. r = ReturnNil \<Longrightarrow> dfs_stack (map Out h) (roots @ stack) (mset (start s :: ('s, 'e) vstate))
                  = new @ dfs_stack (map Out h) stack (mset st')"
    unfolding dfs_rel_def by blast
  have v: "visited st' = new" and m: "mset st' = set new"
    using n(1,2) by (simp_all add: start_def visited_def NewMessageSet_def)
  show "prefix (visited st') (preorder h roots)"
    using n(3) [of "[]"] v by (simp add: preorder_def start_def NewMessageSet_def)
  show "r = ReturnNil \<Longrightarrow> visited st' = preorder h roots"
    using n(4) [of "[]"] v by (simp add: preorder_def start_def NewMessageSet_def)
  show "mset st' = set (visited st')"
    using v m by simp
qed

subsection \<open>The log of a traversal is a run of the visitor\<close>

lemma run_fn_snoc:
  "run_fn fn s (ps @ [p]) =
     (case run_fn fn s ps of
        (cs, s1) \<Rightarrow> (case fn s1 p of (err, s2) \<Rightarrow> (cs @ [(p, err)], s2)))"
  by (induction ps arbitrary: s) (auto split: prod.splits)

lemma Visit_log_is_run:
  fixes fn :: "'s \<Rightarrow> msgptr \<Rightarrow> 'e option \<times> 's"
  assumes "range_Visit (VisitMessages k h fn) xs st = Some (r, st')"
    and "run_fn fn s0 (visited st) = (calls st, fnst st)"
  shows "run_fn fn s0 (visited st') = (calls st', fnst st')"
proof -
  let ?P = "\<lambda>(xs :: Messages) (st :: ('s, 'e) vstate) (r :: 'e outcome) (st' :: ('s, 'e) vstate).
              run_fn fn s0 (visited st) = (calls st, fnst st)
              \<longrightarrow> run_fn fn s0 (visited st') = (calls st', fnst st')"
  let ?Q = "\<lambda>(p :: msgptr) (st :: ('s, 'e) vstate) (r :: 'e outcome) (st' :: ('s, 'e) vstate).
              run_fn fn s0 (visited st) = (calls st, fnst st)
              \<longrightarrow> run_fn fn s0 (visited st') = (calls st', fnst st')"
  have "?P xs st r st'"
    using assms(1)
  proof (rule Visit_post [where P = ?P and Q = ?Q])
    fix p s' m r and st st' :: "('s, 'e) vstate"
    assume f: "fn (fnst st) p = (None, s')"
      and ih: "run_fn fn s0 (visited (mark st p None s')) = (calls (mark st p None s'), fnst (mark st p None s'))
               \<longrightarrow> run_fn fn s0 (visited st') = (calls st', fnst st')"
    show "run_fn fn s0 (visited st) = (calls st, fnst st)
            \<longrightarrow> run_fn fn s0 (visited st') = (calls st', fnst st')"
    proof
      assume "run_fn fn s0 (visited st) = (calls st, fnst st)"
      with f have "run_fn fn s0 (visited (mark st p None s'))
                     = (calls (mark st p None s'), fnst (mark st p None s'))"
        by (simp add: visited_mark run_fn_snoc) (simp add: mark_def)
      with ih show "run_fn fn s0 (visited st') = (calls st', fnst st')" by simp
    qed
  next
    fix p e s' and st :: "('s, 'e) vstate"
    assume f: "fn (fnst st) p = (Some e, s')"
    show "run_fn fn s0 (visited st) = (calls st, fnst st)
            \<longrightarrow> run_fn fn s0 (visited (mark st p (Some e) s'))
                  = (calls (mark st p (Some e) s'), fnst (mark st p (Some e) s'))"
      using f by (simp add: visited_mark run_fn_snoc) (simp add: mark_def)
  next
    fix p s' and st :: "('s, 'e) vstate"
    assume f: "fn (fnst st) p = (None, s')"
    show "run_fn fn s0 (visited st) = (calls st, fnst st)
            \<longrightarrow> run_fn fn s0 (visited (mark st p None s'))
                  = (calls (mark st p None s'), fnst (mark st p None s'))"
      using f by (simp add: visited_mark run_fn_snoc) (simp add: mark_def)
  qed simp_all
  with assms(2) show ?thesis by simp
qed

lemma list_all_butlast: "list_all P xs \<Longrightarrow> list_all P (butlast xs)"
  by (auto simp: list_all_iff dest: in_set_butlastD)

lemma Visit_live_butlast:
  fixes fn :: "'s \<Rightarrow> msgptr \<Rightarrow> 'e option \<times> 's"
  assumes "range_Visit (VisitMessages k h fn) xs st = Some (r, st')"
    and "list_all (live h) (visited st)"
  shows "list_all (live h) (butlast (visited st'))"
    and "r = ReturnNil \<Longrightarrow> list_all (live h) (visited st')"
proof -
  let ?P = "\<lambda>(xs :: Messages) (st :: ('s, 'e) vstate) (r :: 'e outcome) (st' :: ('s, 'e) vstate).
              list_all (live h) (visited st)
              \<longrightarrow> list_all (live h) (butlast (visited st'))
                  \<and> (r = ReturnNil \<longrightarrow> list_all (live h) (visited st'))"
  let ?Q = "\<lambda>(p :: msgptr) (st :: ('s, 'e) vstate) (r :: 'e outcome) (st' :: ('s, 'e) vstate).
              list_all (live h) (visited st)
              \<longrightarrow> list_all (live h) (butlast (visited st'))
                  \<and> (r = ReturnNil \<longrightarrow> list_all (live h) (visited st'))"
  have "?P xs st r st'"
    using assms(1)
  proof (rule Visit_post [where P = ?P and Q = ?Q])
    fix st :: "('s, 'e) vstate"
    show "?P [] st ReturnNil st"
      by (simp add: list_all_butlast)
  next
    fix p s' m r and st st' :: "('s, 'e) vstate"
    assume "deref h p = Some m" and "?P (Out m) (mark st p None s') r st'"
    then show "?Q p st r st'"
      by (simp add: visited_mark live_def)
  qed (simp_all add: visited_mark)
  with assms(2) show "list_all (live h) (butlast (visited st'))"
    and "r = ReturnNil \<Longrightarrow> list_all (live h) (visited st')"
    by simp_all
qed

lemma Visit_panic_is_nil:
  fixes fn :: "'s \<Rightarrow> msgptr \<Rightarrow> 'e option \<times> 's"
  assumes "range_Visit (VisitMessages k h fn) xs st = Some (r, st')" "r = Panicked x"
  shows "x = NilPointerDereference"
proof -
  let ?P = "\<lambda>(xs :: Messages) (st :: ('s, 'e) vstate) (r :: 'e outcome) (st' :: ('s, 'e) vstate).
              \<forall>x. r = Panicked x \<longrightarrow> x = NilPointerDereference"
  let ?Q = "\<lambda>(p :: msgptr) (st :: ('s, 'e) vstate) (r :: 'e outcome) (st' :: ('s, 'e) vstate).
              \<forall>x. r = Panicked x \<longrightarrow> x = NilPointerDereference"
  have "?P xs st r st'"
    using assms(1) by (rule Visit_post [where P = ?P and Q = ?Q]) simp_all
  with assms(2) show ?thesis by simp
qed

lemma Visit_run_facts:
  fixes fn :: "'s \<Rightarrow> msgptr \<Rightarrow> 'e option \<times> 's"
  assumes run: "range_Visit (VisitMessages k h fn) roots (start s) = Some (r, st')"
  shows "run_fn fn s (visited st') = (calls st', fnst st')"
    and "all_nil (butlast (calls st'))"
    and "list_all (live h) (butlast (visited st'))"
    and "(r = ReturnErr e) = (calls st' \<noteq> [] \<and> snd (last (calls st')) = Some e)"
    and "(r = Panicked x) = (x = NilPointerDereference \<and> calls st' \<noteq> []
           \<and> snd (last (calls st')) = None \<and> \<not> live h (last (visited st')))"
    and "all_nil (calls st') \<and> list_all (live h) (visited st') \<longrightarrow> r = ReturnNil"
proof -
  have s0: "run_fn fn s (visited (start s :: ('s, 'e) vstate))
              = (calls (start s :: ('s, 'e) vstate), fnst (start s :: ('s, 'e) vstate))"
    by (simp add: start_def visited_def)
  from run s0 show tie: "run_fn fn s (visited st') = (calls st', fnst st')"
    by (rule Visit_log_is_run)
  have "all_nil (calls (start s :: ('s, 'e) vstate))"
    by (simp add: all_nil_def start_def)
  with run have ok: "outcome_ok h r (calls st')"
    by (rule Visit_outcome_ok)
  have l0: "list_all (live h) (visited (start s :: ('s, 'e) vstate))"
    by (simp add: start_def visited_def)
  note lv = Visit_live_butlast [OF run l0]
  show bl: "all_nil (butlast (calls st'))"
    using ok by (cases r) (simp_all add: outcome_ok_def all_nil_def list_all_butlast)
  show "list_all (live h) (butlast (visited st'))"
    by (rule lv(1))
  have last_v: "last (visited st') = fst (last (calls st'))" if "calls st' \<noteq> []"
    using that by (simp add: visited_def last_map)
  have nil_no_err: "snd (last cs) = None" if "all_nil cs" "cs \<noteq> []" for cs :: "(msgptr \<times> 'e option) list"
    using that by (simp add: all_nil_def list_all_iff)
  have live_last: "live h (last (visited st'))" if "r = ReturnNil" "calls st' \<noteq> []"
  proof -
    from that(2) have "visited st' \<noteq> []" by (simp add: visited_def)
    then have "last (visited st') \<in> set (visited st')" by (rule last_in_set)
    with lv(2) [OF that(1)] show ?thesis by (simp add: list_all_iff)
  qed
  show "(r = ReturnErr e) = (calls st' \<noteq> [] \<and> snd (last (calls st')) = Some e)"
  proof (cases r)
    case ReturnNil
    with ok have "all_nil (calls st')" by (simp add: outcome_ok_def)
    with ReturnNil nil_no_err [OF this] show ?thesis by auto
  next
    case (ReturnErr e')
    with ok show ?thesis by (auto simp: outcome_ok_def)
  next
    case (Panicked y)
    with ok have "all_nil (calls st')" by (simp add: outcome_ok_def)
    with Panicked nil_no_err [OF this] show ?thesis by auto
  qed
  show "(r = Panicked x) = (x = NilPointerDereference \<and> calls st' \<noteq> []
           \<and> snd (last (calls st')) = None \<and> \<not> live h (last (visited st')))"
  proof (cases r)
    case ReturnNil
    with live_last show ?thesis by auto
  next
    case (ReturnErr e')
    with ok show ?thesis by (auto simp: outcome_ok_def)
  next
    case (Panicked y)
    with ok have a: "all_nil (calls st')" and ne: "calls st' \<noteq> []"
      and d: "\<not> live h (fst (last (calls st')))"
      by (simp_all add: outcome_ok_def)
    from Visit_panic_is_nil [OF run Panicked] have "y = NilPointerDereference" .
    with Panicked nil_no_err [OF a ne] ne d last_v [OF ne] show ?thesis by auto
  qed
  show "all_nil (calls st') \<and> list_all (live h) (visited st') \<longrightarrow> r = ReturnNil"
  proof
    assume h: "all_nil (calls st') \<and> list_all (live h) (visited st')"
    show "r = ReturnNil"
    proof (cases r)
      case ReturnNil
      then show ?thesis .
    next
      case (ReturnErr e')
      with ok have "calls st' \<noteq> []" "snd (last (calls st')) = Some e'"
        by (simp_all add: outcome_ok_def)
      with h nil_no_err [of "calls st'"] show ?thesis by simp
    next
      case (Panicked y)
      with ok have ne: "calls st' \<noteq> []" and d: "\<not> live h (fst (last (calls st')))"
        by (simp_all add: outcome_ok_def)
      from ne have "visited st' \<noteq> []" by (simp add: visited_def)
      then have "last (visited st') \<in> set (visited st')" by (rule last_in_set)
      with h have "live h (last (visited st'))" by (simp add: list_all_iff)
      with d last_v [OF ne] show ?thesis by simp
    qed
  qed
qed

subsection \<open>Runs on the example graphs\<close>

lemmas run_simps = Visit_def Messages_Visit_def VisitMessages_Suc range_Visit_Cons start_def mark_def
  NewMessageSet_def deref_def mk_def

lemma cycle_run:
  "Visit cycle_heap cycle_chat never_fail ()
     = Some (ReturnNil, \<lparr>mset = {Some 0, Some 1}, fnst = (),
                          calls = [(Some 0, None), (Some 1, None)]\<rparr>)"
  by (simp add: run_simps cycle_heap_def cycle_chat_def never_fail_def insert_commute)

lemma chain_run:
  "Visit chain_heap chain_chat never_fail ()
     = Some (ReturnNil, \<lparr>mset = {Some 0, Some 1, Some 2, Some 3}, fnst = (),
                          calls = [(Some 0, None), (Some 1, None), (Some 2, None), (Some 3, None)]\<rparr>)"
  by (simp add: run_simps chain_heap_def chain_chat_def never_fail_def insert_commute)





subsection \<open>Claims about the traversal\<close>

lemma deref_Out_cong:
  assumes "map Out h' = map Out h"
  shows "map_option Out (deref h' p) = map_option Out (deref h p)"
proof -
  from assms have len: "length h' = length h"
    by (rule map_eq_imp_length_eq)
  have "Out (h' ! a) = Out (h ! a)" if "a < length h" for a
    using that len nth_map [of a h' Out] nth_map [of a h Out] assms by simp
  with len show ?thesis
    by (simp add: deref_def split: option.splits)
qed

lemma VisitMessages_Out_cong:
  assumes "map Out h' = map Out h"
  shows "VisitMessages k h' fn = VisitMessages k h fn"
proof (induction k)
  case 0
  show ?case by simp
next
  case (Suc k)
  show ?case
  proof (intro ext)
    fix p st
    from deref_Out_cong [OF assms, of p]
    consider "deref h' p = None" "deref h p = None"
      | m' m where "deref h' p = Some m'" "deref h p = Some m" "Out m' = Out m"
      by (cases "deref h' p"; cases "deref h p") auto
    then show "VisitMessages (Suc k) h' fn p st = VisitMessages (Suc k) h fn p st"
      by cases (simp_all add: VisitMessages_Suc Suc.IH split: prod.splits option.splits)
  qed
qed

lemma Visit_Out_cong:
  assumes "map Out h' = map Out h"
  shows "Visit h' c fn s = Visit h c fn s"
proof -
  from assms have "length h' = length h"
    by (rule map_eq_imp_length_eq)
  then show ?thesis
    unfolding Visit_def by (simp only: VisitMessages_Out_cong [OF assms])
qed





text \<open>
  Claim C4. \<^verbatim>\<open>Visit\<close> returns on every heap, chat, visitor and visitor state, cyclic graphs
  included: the depth of nested calls it starts with is never used up, and every greater
  depth gives the same result. When it returns, the visited set is the set of the
  pointers the visitor was called with: a node is marked when it is visited, before its
  out-edges are followed.
\<close>

theorem Visit_terminates:
  fixes fn :: "'s \<Rightarrow> msgptr \<Rightarrow> 'e option \<times> 's"
  shows "\<exists>r st'. Visit h c fn s = Some (r, st')
           \<and> mset st' = set (visited st')
           \<and> (\<forall>k. Suc (length h) \<le> k \<longrightarrow>
                  range_Visit (VisitMessages k h fn) (Messages c) (start s) = Some (r, st'))"
proof -
  from Visit_total [of h fn "Messages c" s] obtain r st'
    where run: "range_Visit (VisitMessages (Suc (length h)) h fn) (Messages c) (start s) = Some (r, st')"
    by blast
  have "range_Visit (VisitMessages k h fn) (Messages c) (start s) = Some (r, st')"
    if "Suc (length h) \<le> k" for k
    using run by (rule range_Visit_mono [rotated]) (rule VisitMessages_mono [OF that])
  with run Visit_preorder(3) [OF run] show ?thesis
    unfolding Visit_def by blast
qed

text \<open>On the cycle of two messages, rooted at the first, \<^verbatim>\<open>Visit\<close> returns nil after one
  call of the visitor on each of the two.\<close>

theorem Visit_terminates_witness:
  "Suc (length cycle_heap) \<le> 7
   \<and> Visit cycle_heap cycle_chat never_fail ()
       = Some (ReturnNil, \<lparr>mset = {Some 0, Some 1}, fnst = (),
                            calls = [(Some 0, None), (Some 1, None)]\<rparr>)
   \<and> range_Visit (VisitMessages 7 cycle_heap never_fail) (Messages cycle_chat) (start ())
       = Visit cycle_heap cycle_chat never_fail ()"
proof -
  have 7: "Suc (length cycle_heap) \<le> 7"
    by (simp add: cycle_heap_def)
  from Visit_terminates [of cycle_heap cycle_chat never_fail "()"] obtain r st'
    where v: "Visit cycle_heap cycle_chat never_fail () = Some (r, st')"
      and k: "\<And>k. Suc (length cycle_heap) \<le> k \<Longrightarrow>
                range_Visit (VisitMessages k cycle_heap never_fail) (Messages cycle_chat) (start ())
                  = Some (r, st')"
    by blast
  from k [OF 7] v
  have "range_Visit (VisitMessages 7 cycle_heap never_fail) (Messages cycle_chat) (start ())
          = Visit cycle_heap cycle_chat never_fail ()"
    by simp
  with 7 cycle_run show ?thesis by blast
qed






text \<open>
  Claim C3. \<^verbatim>\<open>Visit\<close> returns, and the pointers the visitor is called with, in the order of
  the calls, are a prefix of the depth-first pre-order of the out-edge graph from the
  roots; the log is the visitor run on that prefix from the state it was given. Every
  call but the last returned nil on a live pointer. \<^verbatim>\<open>Visit\<close> returns the error \<open>e\<close> exactly
  when the last call returned \<open>e\<close>, panics (on a nil dereference) exactly when the last
  call returned nil on a pointer that is not live, and returns nil in every other case,
  and then the visited pointers are the whole pre-order. That order is computed from the
  \<^verbatim>\<open>Out\<close> lists and the root collection alone; and on a heap with the same \<^verbatim>\<open>Out\<close> lists,
  whatever its \<^verbatim>\<open>In\<close> lists, IDs and contents, \<^verbatim>\<open>Visit\<close> gives the same result.
\<close>

theorem Visit_order_is_preorder:
  fixes fn :: "'s \<Rightarrow> msgptr \<Rightarrow> 'e option \<times> 's"
  shows "\<exists>r st'. Visit h c fn s = Some (r, st')
           \<and> prefix (visited st') (preorder h (Messages c))
           \<and> run_fn fn s (visited st') = (calls st', fnst st')
           \<and> all_nil (butlast (calls st'))
           \<and> list_all (live h) (butlast (visited st'))
           \<and> (\<forall>e. (r = ReturnErr e) = (calls st' \<noteq> [] \<and> snd (last (calls st')) = Some e))
           \<and> (\<forall>x. (r = Panicked x) = (x = NilPointerDereference \<and> calls st' \<noteq> []
                     \<and> snd (last (calls st')) = None \<and> \<not> live h (last (visited st'))))
           \<and> (r = ReturnNil \<longrightarrow> visited st' = preorder h (Messages c))
           \<and> (all_nil (calls st') \<and> list_all (live h) (visited st') \<longrightarrow> r = ReturnNil)
           \<and> (\<forall>h'. map Out h' = map Out h \<longrightarrow>
                  Visit h' c fn s = Visit h c fn s
                  \<and> preorder h' (Messages c) = preorder h (Messages c))"
proof -
  from Visit_total [of h fn "Messages c" s] obtain r st'
    where run: "range_Visit (VisitMessages (Suc (length h)) h fn) (Messages c) (start s) = Some (r, st')"
    by blast
  note pre = Visit_preorder [OF run]
  note facts = Visit_run_facts [OF run]
  have v: "Visit h c fn s = Some (r, st')"
    using run by (simp add: Visit_def)
  have cong: "Visit h' c fn s = Visit h c fn s \<and> preorder h' (Messages c) = preorder h (Messages c)"
    if "map Out h' = map Out h" for h'
    using Visit_Out_cong [OF that] that by (simp add: preorder_def)
  have 3: "r = ReturnNil \<longrightarrow> visited st' = preorder h (Messages c)"
    using pre(2) by blast
  have 4: "\<forall>h'. map Out h' = map Out h \<longrightarrow>
                  Visit h' c fn s = Visit h c fn s
                  \<and> preorder h' (Messages c) = preorder h (Messages c)"
    using cong by blast
  have 7: "\<forall>e. (r = ReturnErr e) = (calls st' \<noteq> [] \<and> snd (last (calls st')) = Some e)"
    using facts(4) by (rule allI)
  have 8: "\<forall>x. (r = Panicked x) = (x = NilPointerDereference \<and> calls st' \<noteq> []
                     \<and> snd (last (calls st')) = None \<and> \<not> live h (last (visited st')))"
    using facts(5) by (rule allI)
  show ?thesis
  proof (intro exI conjI)
    show "Visit h c fn s = Some (r, st')" by (rule v)
  qed (rule pre(1) facts(1) facts(2) facts(3) 7 8 3 facts(6) 4)+
qed

text \<open>On the chain of four messages rooted at the first, the visitor is called on the
  first, second, third and fourth message in this order, no call returns an error and
  every pointer is live; and after every \<^verbatim>\<open>In\<close> list is replaced by one that points to the
  last message, \<^verbatim>\<open>Visit\<close> gives the same result.\<close>

theorem Visit_order_is_preorder_witness:
  "Visit chain_heap chain_chat never_fail ()
     = Some (ReturnNil, \<lparr>mset = {Some 0, Some 1, Some 2, Some 3}, fnst = (),
                          calls = [(Some 0, None), (Some 1, None), (Some 2, None), (Some 3, None)]\<rparr>)
   \<and> all_nil [(Some (0::nat), None :: string option), (Some 1, None), (Some 2, None), (Some 3, None)]
   \<and> list_all (live chain_heap) [Some 0, Some 1, Some 2, Some 3]
   \<and> preorder chain_heap (Messages chain_chat) = [Some 0, Some 1, Some 2, Some 3]
   \<and> map Out (map (\<lambda>m. m\<lparr>In := [Some 3]\<rparr>) chain_heap) = map Out chain_heap
   \<and> Visit (map (\<lambda>m. m\<lparr>In := [Some 3]\<rparr>) chain_heap) chain_chat never_fail ()
       = Visit chain_heap chain_chat never_fail ()"
proof -
  have o: "map Out (map (\<lambda>m. m\<lparr>In := [Some 3]\<rparr>) chain_heap) = map Out chain_heap"
    by simp
  have an: "all_nil [(Some (0::nat), None :: string option), (Some 1, None), (Some 2, None), (Some 3, None)]"
    by (simp add: all_nil_def)
  have la: "list_all (live chain_heap) [Some 0, Some 1, Some 2, Some 3]"
    by (simp add: live_def deref_def chain_heap_def)
  from Visit_order_is_preorder [of chain_heap chain_chat never_fail "()"] obtain r st'
    where v: "Visit chain_heap chain_chat never_fail () = Some (r, st')"
      and eq: "r = ReturnNil \<longrightarrow> visited st' = preorder chain_heap (Messages chain_chat)"
      and runb: "all_nil (calls st') \<and> list_all (live chain_heap) (visited st') \<longrightarrow> r = ReturnNil"
      and cong: "\<forall>h'. map Out h' = map Out chain_heap \<longrightarrow>
                   Visit h' chain_chat never_fail () = Visit chain_heap chain_chat never_fail ()
                   \<and> preorder h' (Messages chain_chat) = preorder chain_heap (Messages chain_chat)"
    by (elim exE conjE)
  from trans [OF v [symmetric] chain_run]
  have cs: "calls st' = [(Some 0, None), (Some 1, None), (Some 2, None), (Some 3, None)]"
    by simp
  then have vis: "visited st' = [Some 0, Some 1, Some 2, Some 3]"
    by (simp add: visited_def)
  from runb an la have r: "r = ReturnNil"
    by (simp only: cs vis simp_thms)
  from eq r vis have p: "preorder chain_heap (Messages chain_chat) = [Some 0, Some 1, Some 2, Some 3]"
    by simp
  from cong [rule_format, OF o]
  have c: "Visit (map (\<lambda>m. m\<lparr>In := [Some 3]\<rparr>) chain_heap) chain_chat never_fail ()
             = Visit chain_heap chain_chat never_fail ()"
    by (rule conjunct1)
  show ?thesis
    by (intro conjI chain_run an la p o c)
qed

end
